theory Spec2Isabelle
  imports Main
begin

section \<open>The shortener service of \<open>src/api/index.js\<close>\<close>

text \<open>
  The service keeps one JSON file (\<open>database.json\<close>) and three request handlers over it:
  \<open>POST /shorten\<close>, \<open>GET /:name\<close> and \<open>GET /api/stats/:name\<close>. Every handler reads the
  whole file, and the two mutating paths write the whole file back.

  Texts are \<^typ>\<open>string\<close>s; a \<^typ>\<open>char\<close> is one byte of the UTF-8 text that
  \<open>fs.readFile(_, 'utf8')\<close> and \<open>fs.writeFile\<close> exchange with the disk. A visit count is a
  JavaScript number with a natural value: it is a \<^typ>\<open>nat\<close>, and adding to it rounds as the
  addition of doubles does.

  A handler is modelled as running alone on the file, from its request to its response.

  The built-in functions the source calls are modelled here as far as the source uses
  them: \<open>JSON.parse\<close> and \<open>JSON.stringify\<close> on texts, property lookup and assignment on the
  database object, \<open>fs.readFile\<close> and \<open>fs.writeFile\<close> on one file. The URL parser behind
  \<open>isValidUrl\<close> is a parameter of the create handler.
\<close>

subsection \<open>Characters\<close>

definition code :: "char \<Rightarrow> nat" where
  "code c = of_char c"

definition is_digit :: "char \<Rightarrow> bool" where
  "is_digit c \<longleftrightarrow> 48 \<le> code c \<and> code c \<le> 57"

definition is_hex :: "char \<Rightarrow> bool" where
  "is_hex c \<longleftrightarrow> is_digit c \<or> (97 \<le> code c \<and> code c \<le> 102) \<or> (65 \<le> code c \<and> code c \<le> 70)"

text \<open>The four white-space characters of the JSON grammar: space, tab, line feed, carriage return.\<close>

definition is_ws :: "char \<Rightarrow> bool" where
  "is_ws c \<longleftrightarrow> code c = 32 \<or> code c = 9 \<or> code c = 10 \<or> code c = 13"

abbreviation DQ :: char where "DQ \<equiv> CHR 0x22"
abbreviation BSL :: char where "BSL \<equiv> CHR 0x5C"
abbreviation NL :: char where "NL \<equiv> CHR 0x0A"

subsection \<open>The name pattern\<close>

text \<open>
  \<^verbatim>\<open>/^[a-zA-Z0-9-]+$/.test(name)\<close>: without the \<open>m\<close> flag \<open>^\<close> and \<open>$\<close> match only at the two
  ends of the input, so the test holds exactly when the name is non-empty and every
  character is a letter, a digit or a dash.
\<close>

definition name_char :: "char \<Rightarrow> bool" where
  "name_char c \<longleftrightarrow>
     (97 \<le> code c \<and> code c \<le> 122) \<or> (65 \<le> code c \<and> code c \<le> 90) \<or> is_digit c \<or> code c = 45"

definition name_pattern :: "string \<Rightarrow> bool" where
  "name_pattern s \<longleftrightarrow> s \<noteq> [] \<and> list_all name_char s"

subsection \<open>JSON texts: \<open>JSON.parse\<close>\<close>

text \<open>
  \<open>JSON.parse\<close> is modelled on the syntax of the text. A \<open>json\<close> value is the syntax tree of
  a JSON text: a number keeps its literal and a string keeps the characters between its
  quotes, escapes included. What the literals stand for is read off later, where the
  store is typed.
\<close>

datatype json =
    JNull
  | JBool bool
  | JNum string
  | JStr string
  | JArr "json list"
  | JObj "(string \<times> json) list"

datatype token =
    LBrace | RBrace | LBrack | RBrack | Colon | Comma
  | TString string | TNumber string | TTrue | TFalse | TNull

text \<open>
  The body of a string, after the opening quote: up to the closing quote, which is not
  part of the result. A control character (below \<open>0x20\<close>) may not occur unescaped; after a
  backslash only \<open>" \ / b f n r t\<close> and \<open>u\<close> with four hexadecimal digits are allowed.
\<close>

fun lex_string :: "string \<Rightarrow> (string \<times> string) option" where
  "lex_string [] = None"
| "lex_string [c] = (if c = DQ then Some ([], []) else None)"
| "lex_string (c # e # cs) =
     (if c = DQ then Some ([], e # cs)
      else if c = BSL then
        (if e \<in> set (DQ # BSL # ''/bfnrt'') then
           map_option (\<lambda>(b, r). (c # e # b, r)) (lex_string cs)
         else if e = CHR ''u'' \<and> 4 \<le> length cs \<and> list_all is_hex (take 4 cs) then
           map_option (\<lambda>(b, r). (c # e # take 4 cs @ b, r)) (lex_string (drop 4 cs))
         else None)
      else if code c < 32 then None
      else map_option (\<lambda>(b, r). (c # b, r)) (lex_string (e # cs)))"

text \<open>
  A number literal: an optional minus, an integer part without a leading zero (or the
  single digit \<open>0\<close>), an optional fraction and an optional exponent, each with at least one
  digit.
\<close>

definition lex_int :: "string \<Rightarrow> (string \<times> string) option" where
  "lex_int cs =
     (case cs of
        [] \<Rightarrow> None
      | c # r \<Rightarrow>
          if c = CHR ''0'' then Some ([c], r)
          else if is_digit c then Some (takeWhile is_digit cs, dropWhile is_digit cs)
          else None)"

definition lex_frac :: "string \<Rightarrow> (string \<times> string) option" where
  "lex_frac cs =
     (case cs of
        [] \<Rightarrow> Some ([], cs)
      | c # r \<Rightarrow>
          if c = CHR ''.'' then
            (if takeWhile is_digit r = [] then None
             else Some (c # takeWhile is_digit r, dropWhile is_digit r))
          else Some ([], cs))"

definition lex_exp :: "string \<Rightarrow> (string \<times> string) option" where
  "lex_exp cs =
     (case cs of
        [] \<Rightarrow> Some ([], cs)
      | c # r \<Rightarrow>
          if c = CHR ''e'' \<or> c = CHR ''E'' then
            (let sg = (if r \<noteq> [] \<and> (hd r = CHR ''+'' \<or> hd r = CHR ''-'') then [hd r] else []);
                 r' = drop (length sg) r
             in if takeWhile is_digit r' = [] then None
                else Some (c # sg @ takeWhile is_digit r', dropWhile is_digit r'))
          else Some ([], cs))"

definition lex_number :: "string \<Rightarrow> (string \<times> string) option" where
  "lex_number cs =
     (let sg = (if cs \<noteq> [] \<and> hd cs = CHR ''-'' then ''-'' else [])
      in case lex_int (drop (length sg) cs) of
           None \<Rightarrow> None
         | Some (i, r1) \<Rightarrow>
             (case lex_frac r1 of
                None \<Rightarrow> None
              | Some (f, r2) \<Rightarrow>
                  (case lex_exp r2 of
                     None \<Rightarrow> None
                   | Some (e, r3) \<Rightarrow> Some (sg @ i @ f @ e, r3))))"

lemma lex_string_shorter: "lex_string cs = Some (b, r) \<Longrightarrow> length r < length cs"
  by (induction cs arbitrary: b r rule: lex_string.induct)
     (fastforce split: if_splits)+

lemma lex_int_shorter: "lex_int cs = Some (b, r) \<Longrightarrow> length r < length cs"
  by (cases cs)
     (auto simp: lex_int_def less_Suc_eq_le length_dropWhile_le split: if_splits)

lemma lex_frac_shorter: "lex_frac cs = Some (b, r) \<Longrightarrow> length r \<le> length cs"
  by (cases cs)
     (auto simp: lex_frac_def le_SucI length_dropWhile_le split: if_splits)

lemma lex_exp_shorter: "lex_exp cs = Some (b, r) \<Longrightarrow> length r \<le> length cs"
proof (cases cs)
  case Nil
  then show "lex_exp cs = Some (b, r) \<Longrightarrow> length r \<le> length cs"
    by (simp add: lex_exp_def)
next
  case (Cons c t)
  have "length (dropWhile is_digit (drop n t)) \<le> Suc (length t)" for n
    using length_dropWhile_le [of is_digit "drop n t"] by simp
  moreover have "length (dropWhile is_digit t) \<le> Suc (length t)"
    using length_dropWhile_le [of is_digit t] by simp
  ultimately show "lex_exp cs = Some (b, r) \<Longrightarrow> length r \<le> length cs"
    using Cons by (auto simp: lex_exp_def Let_def split: if_splits)
qed

lemma lex_number_shorter: "lex_number cs = Some (b, r) \<Longrightarrow> length r < length cs"
proof -
  assume a: "lex_number cs = Some (b, r)"
  let ?d = "drop (length (if cs \<noteq> [] \<and> hd cs = CHR ''-'' then ''-'' else [])) cs"
  from a obtain i r1 f r2 e where
    1: "lex_int ?d = Some (i, r1)" and 2: "lex_frac r1 = Some (f, r2)"
    and 3: "lex_exp r2 = Some (e, r)"
    by (auto simp: lex_number_def Let_def split: option.splits)
  have "length r \<le> length r2" using 3 by (rule lex_exp_shorter)
  also have "\<dots> \<le> length r1" using 2 by (rule lex_frac_shorter)
  also have "\<dots> < length ?d" using 1 by (rule lex_int_shorter)
  also have "\<dots> \<le> length cs" by simp
  finally show ?thesis .
qed

text \<open>
  One step of the tokeniser on a non-empty text: the token that starts there (none for
  white space) and the rest of the text; \<open>None\<close> when the character starts no token.
\<close>

definition starts_with :: "string \<Rightarrow> string \<Rightarrow> bool" where
  "starts_with p s \<longleftrightarrow> take (length p) s = p"

definition lex_step :: "char \<Rightarrow> string \<Rightarrow> (token option \<times> string) option" where
  "lex_step c cs =
     (if is_ws c then Some (None, cs)
      else if c = CHR ''{'' then Some (Some LBrace, cs)
      else if c = CHR ''}'' then Some (Some RBrace, cs)
      else if c = CHR ''['' then Some (Some LBrack, cs)
      else if c = CHR '']'' then Some (Some RBrack, cs)
      else if c = CHR '':'' then Some (Some Colon, cs)
      else if c = CHR '','' then Some (Some Comma, cs)
      else if c = DQ then map_option (\<lambda>(b, r). (Some (TString b), r)) (lex_string cs)
      else if c = CHR ''-'' \<or> is_digit c then
        map_option (\<lambda>(n, r). (Some (TNumber n), r)) (lex_number (c # cs))
      else if starts_with ''true'' (c # cs) then Some (Some TTrue, drop 3 cs)
      else if starts_with ''false'' (c # cs) then Some (Some TFalse, drop 4 cs)
      else if starts_with ''null'' (c # cs) then Some (Some TNull, drop 3 cs)
      else None)"

lemma lex_step_shorter: "lex_step c cs = Some (t, r) \<Longrightarrow> length r \<le> length cs"
proof -
  assume a: "lex_step c cs = Some (t, r)"
  have "r = cs \<or> r = drop 3 cs \<or> r = drop 4 cs \<or> (\<exists>b. lex_string cs = Some (b, r))
          \<or> (\<exists>n. lex_number (c # cs) = Some (n, r))"
    using a unfolding lex_step_def by (fastforce split: if_splits)
  then show ?thesis
    by (auto dest!: lex_string_shorter lex_number_shorter)
qed

text \<open>The tokens of a text; \<open>None\<close> when some character starts no token.\<close>

function tokenize :: "string \<Rightarrow> token list option" where
  "tokenize [] = Some []"
| "tokenize (c # cs) =
     (case lex_step c cs of
        None \<Rightarrow> None
      | Some (t, r) \<Rightarrow>
          (case t of None \<Rightarrow> tokenize r | Some x \<Rightarrow> map_option ((#) x) (tokenize r)))"
  by pat_completeness auto
termination
  by (relation "measure length") (auto dest: lex_step_shorter simp: less_Suc_eq_le)

declare tokenize.simps(2) [simp del]

text \<open>
  The grammar of values over the tokens. An array or an object that is not closed at once
  holds one value (or member) and then either its closing bracket or a comma and more;
  a trailing comma is an error. The test on the lengths is true whenever it is reached,
  since \<open>parse_value\<close> consumes at least one token (\<open>parse_consumes\<close> below): it only makes
  the recursion visibly well-founded.
\<close>

function parse_value :: "token list \<Rightarrow> (json \<times> token list) option"
  and parse_elems :: "token list \<Rightarrow> (json list \<times> token list) option"
  and parse_members :: "token list \<Rightarrow> ((string \<times> json) list \<times> token list) option"
where
  "parse_value [] = None"
| "parse_value (TNull # ts) = Some (JNull, ts)"
| "parse_value (TTrue # ts) = Some (JBool True, ts)"
| "parse_value (TFalse # ts) = Some (JBool False, ts)"
| "parse_value (TNumber n # ts) = Some (JNum n, ts)"
| "parse_value (TString s # ts) = Some (JStr s, ts)"
| "parse_value (LBrack # ts) =
     (if ts \<noteq> [] \<and> hd ts = RBrack then Some (JArr [], tl ts)
      else map_option (apfst JArr) (parse_elems ts))"
| "parse_value (LBrace # ts) =
     (if ts \<noteq> [] \<and> hd ts = RBrace then Some (JObj [], tl ts)
      else map_option (apfst JObj) (parse_members ts))"
| "parse_value (RBrack # ts) = None"
| "parse_value (RBrace # ts) = None"
| "parse_value (Colon # ts) = None"
| "parse_value (Comma # ts) = None"
| "parse_elems ts =
     (case parse_value ts of
        None \<Rightarrow> None
      | Some (v, r) \<Rightarrow>
          if r = [] then None
          else if hd r = RBrack then Some ([v], tl r)
          else if hd r = Comma \<and> length (tl r) < length ts then
            map_option (apfst ((#) v)) (parse_elems (tl r))
          else None)"
| "parse_members ts =
     (case ts of
        TString k # Colon # ts' \<Rightarrow>
          (case parse_value ts' of
             None \<Rightarrow> None
           | Some (v, r) \<Rightarrow>
               if r = [] then None
               else if hd r = RBrace then Some ([(k, v)], tl r)
               else if hd r = Comma \<and> length (tl r) < length ts then
                 map_option (apfst ((#) (k, v))) (parse_members (tl r))
               else None)
      | _ \<Rightarrow> None)"
  by pat_completeness auto
termination
  by (relation "measure (\<lambda>x. case x of
          Inl ts \<Rightarrow> 2 * length ts
        | Inr (Inl ts) \<Rightarrow> 2 * length ts + 1
        | Inr (Inr ts) \<Rightarrow> 2 * length ts + 1)")
     auto

declare parse_elems.simps [simp del] parse_members.simps [simp del]

text \<open>\<open>JSON.parse(text)\<close>: the value of the whole text, \<open>None\<close> where it throws a \<open>SyntaxError\<close>.\<close>

definition JSON_parse :: "string \<Rightarrow> json option" where
  "JSON_parse text =
     (case tokenize text of
        None \<Rightarrow> None
      | Some ts \<Rightarrow>
          (case parse_value ts of
             None \<Rightarrow> None
           | Some (v, r) \<Rightarrow> if r = [] then Some v else None))"

subsection \<open>JSON texts: \<open>JSON.stringify(value, null, 2)\<close>\<close>

text \<open>
  With an indentation of two spaces \<open>JSON.stringify\<close> puts every element and member on a
  line of its own, one level deeper than the brackets around it, \<open>": "\<close> between a key and
  its value, and prints an empty array or object as \<open>[]\<close> or \<open>{}\<close>.
\<close>

definition indent :: "nat \<Rightarrow> string" where
  "indent n = replicate (2 * n) (CHR '' '')"

fun JSON_print :: "nat \<Rightarrow> json \<Rightarrow> string"
  and print_elems :: "nat \<Rightarrow> json list \<Rightarrow> string"
  and print_members :: "nat \<Rightarrow> (string \<times> json) list \<Rightarrow> string"
where
  "JSON_print i JNull = ''null''"
| "JSON_print i (JBool b) = (if b then ''true'' else ''false'')"
| "JSON_print i (JNum n) = n"
| "JSON_print i (JStr s) = DQ # s @ [DQ]"
| "JSON_print i (JArr vs) =
     (if vs = [] then ''[]''
      else ''['' @ NL # indent (Suc i) @ print_elems (Suc i) vs @ NL # indent i @ '']'')"
| "JSON_print i (JObj ms) =
     (if ms = [] then ''{}''
      else ''{'' @ NL # indent (Suc i) @ print_members (Suc i) ms @ NL # indent i @ ''}'')"
| "print_elems i [] = []"
| "print_elems i (v # vs) =
     JSON_print i v @ (if vs = [] then [] else '','' @ NL # indent i @ print_elems i vs)"
| "print_members i [] = []"
| "print_members i ((k, v) # ms) =
     DQ # k @ DQ # '': '' @ JSON_print i v
       @ (if ms = [] then [] else '','' @ NL # indent i @ print_members i ms)"

subsection \<open>Strings and numbers inside JSON\<close>

text \<open>
  \<open>JSON.stringify\<close> quotes a string by escaping the quote, the backslash and the control
  characters: five of them by a letter, the others as \<open>\u00XX\<close> with lower-case digits.
  Every other character stands for itself.
\<close>

definition hex_digit :: "nat \<Rightarrow> char" where
  "hex_digit n = (if n < 10 then char_of (48 + n) else char_of (87 + n))"

definition short_escape :: "char \<Rightarrow> char option" where
  "short_escape c =
     (if code c = 8 then Some (CHR ''b'')
      else if code c = 12 then Some (CHR ''f'')
      else if code c = 10 then Some (CHR ''n'')
      else if code c = 13 then Some (CHR ''r'')
      else if code c = 9 then Some (CHR ''t'')
      else None)"

definition quote_char :: "char \<Rightarrow> string" where
  "quote_char c =
     (if c = DQ then [BSL, DQ]
      else if c = BSL then [BSL, BSL]
      else
        (case short_escape c of
           Some e \<Rightarrow> [BSL, e]
         | None \<Rightarrow>
             if code c < 32 then
               BSL # ''u00'' @ [hex_digit (code c div 16), hex_digit (code c mod 16)]
             else [c]))"

definition quote_body :: "string \<Rightarrow> string" where
  "quote_body s = concat (map quote_char s)"

text \<open>
  Reading a string body back. An escape \<open>\uXXXX\<close> of a code unit from \<open>0x80\<close> on stands for a
  character that is more than one byte of UTF-8; the model does not represent it and
  answers \<open>None\<close>.
\<close>

definition hex_value :: "char \<Rightarrow> nat" where
  "hex_value c =
     (if is_digit c then code c - 48
      else if 97 \<le> code c then code c - 87
      else code c - 55)"

definition simple_escape :: "char \<Rightarrow> char option" where
  "simple_escape e =
     (if e = DQ \<or> e = BSL \<or> e = CHR ''/'' then Some e
      else if e = CHR ''b'' then Some (CHR 0x08)
      else if e = CHR ''f'' then Some (CHR 0x0C)
      else if e = CHR ''n'' then Some (CHR 0x0A)
      else if e = CHR ''r'' then Some (CHR 0x0D)
      else if e = CHR ''t'' then Some (CHR 0x09)
      else None)"

definition unicode_escape :: "string \<Rightarrow> char option" where
  "unicode_escape hs =
     (if length hs = 4 \<and> list_all is_hex hs then
        (let n = foldl (\<lambda>a h. 16 * a + hex_value h) 0 hs
         in if n < 128 then Some (char_of n) else None)
      else None)"

fun unescape :: "string \<Rightarrow> string option" where
  "unescape [] = Some []"
| "unescape [c] = (if c = BSL then None else Some [c])"
| "unescape (c # e # cs) =
     (if c = BSL then
        (if e = CHR ''u'' then
           (case unicode_escape (take 4 cs) of
              None \<Rightarrow> None
            | Some x \<Rightarrow> map_option ((#) x) (unescape (drop 4 cs)))
         else
           (case simple_escape e of
              None \<Rightarrow> None
            | Some x \<Rightarrow> map_option ((#) x) (unescape cs)))
      else map_option ((#) c) (unescape (e # cs)))"

text \<open>A count is printed in decimal, and read back from a literal of digits only.\<close>

fun show_nat :: "nat \<Rightarrow> string" where
  "show_nat n = (if n < 10 then [char_of (48 + n)] else show_nat (n div 10) @ [char_of (48 + n mod 10)])"

declare show_nat.simps [simp del]

definition read_nat :: "string \<Rightarrow> nat option" where
  "read_nat ds =
     (if ds \<noteq> [] \<and> list_all is_digit ds then Some (foldl (\<lambda>a d. 10 * a + (code d - 48)) 0 ds)
      else None)"

subsection \<open>Counting in JavaScript numbers\<close>

text \<open>
  A JavaScript number is a double, with a mantissa of 53 bits. Every natural number up to
  \<open>2 ^ 53 = 9007199254740992\<close> is a number; from there on only the multiples of
  \<open>2 ^ exponent n\<close> are. \<open>nearest n\<close> is the number that an exact result \<open>n\<close> is rounded to: the
  nearest one, and of two equally near ones the one with the even mantissa. (A result from
  \<open>2 ^ 1024\<close> on would be \<open>Infinity\<close>; no sum below is that large.)
\<close>

definition max_count :: nat where
  "max_count = 9007199254740992"

function exponent :: "nat \<Rightarrow> nat" where
  "exponent n = (if n < 9007199254740992 then 0 else Suc (exponent (n div 2)))"
  by pat_completeness auto
termination
  by (relation "measure id") auto

declare exponent.simps [simp del]

definition nearest :: "nat \<Rightarrow> nat" where
  "nearest n =
     (let u = 2 ^ exponent n; q = n div u; r = n mod u
      in if 2 * r < u \<or> (2 * r = u \<and> even q) then q * u else (q + 1) * u)"

text \<open>\<open>count += 1\<close> on a number with a natural value.\<close>

definition plus_one :: "nat \<Rightarrow> nat" where
  "plus_one n = nearest (n + 1)"

subsection \<open>Values\<close>

text \<open>
  The values that the fields of a request body can have, and with them the fields \<open>name\<close>
  and \<open>web_target\<close> of a record: what \<open>JSON.parse\<close> makes of a JSON text. An object holds its
  own properties in their order. A number is held as the text that the conversion of the
  number to a string gives (\<open>0\<close> for both zeros), which determines the number.
\<close>

datatype val =
    VNull
  | VBool bool
  | VNum string
  | VStr string
  | VArr "val list"
  | VObj "(string \<times> val) list"

text \<open>Truthiness of a value, as \<open>!url\<close> and \<open>!name\<close> test it at line 56.\<close>

fun ToBoolean :: "val \<Rightarrow> bool" where
  "ToBoolean VNull = False"
| "ToBoolean (VBool b) = b"
| "ToBoolean (VNum t) = (t \<noteq> ''0'' \<and> t \<noteq> ''NaN'')"
| "ToBoolean (VStr s) = (s \<noteq> [])"
| "ToBoolean (VArr vs) = True"
| "ToBoolean (VObj ms) = True"

text \<open>
  The exceptions that reach a \<open>catch\<close> of the source: a failure of the file system with its
  code, the \<open>SyntaxError\<close> of \<open>JSON.parse\<close>, and a \<open>TypeError\<close>.
\<close>

datatype errcode = ENOENT | EOTHER

datatype exn = FsError errcode | SyntaxError | TypeError

text \<open>
  The conversion of a value to a string, which \<open>new URL(string)\<close>, \<open>RegExp.prototype.test\<close>,
  the property access \<open>db[name]\<close> and the template literal of line 98 apply to a value that is
  not a string. An array is \<open>join\<close>ed with commas, \<open>null\<close> elements giving the empty text. An
  object is converted by its \<open>toString\<close> method: the inherited one answers
  \<open>[object Object]\<close>; an own property \<open>toString\<close> of a parsed object is no function, and
  then, \<open>valueOf\<close> giving no primitive value either, the conversion throws a \<open>TypeError\<close>.
\<close>

fun ToString :: "val \<Rightarrow> exn + string"
  and join :: "val list \<Rightarrow> exn + string"
where
  "ToString VNull = Inr ''null''"
| "ToString (VBool b) = Inr (if b then ''true'' else ''false'')"
| "ToString (VNum t) = Inr t"
| "ToString (VStr s) = Inr s"
| "ToString (VArr vs) = join vs"
| "ToString (VObj ms) =
     (if ''toString'' \<in> set (map fst ms) then Inl TypeError else Inr ''[object Object]'')"
| "join [] = Inr []"
| "join (v # vs) =
     (case (if v = VNull then Inr [] else ToString v) of
        Inl e \<Rightarrow> Inl e
      | Inr a \<Rightarrow>
          if vs = [] then Inr a
          else (case join vs of Inl e \<Rightarrow> Inl e | Inr b \<Rightarrow> Inr (a @ '','' @ b)))"

subsection \<open>The data model\<close>

text \<open>
  A visit is the object \<open>{ip, timestamp}\<close> pushed at line 142; a record is the object built at
  lines 95 to 103, with the source's field names. Its \<open>name\<close> and \<open>web_target\<close> are the values
  of the request body as they came, and \<open>web_url\<close> is a text.
\<close>

record Visit =
  ip :: string
  timestamp :: string

record ShortLinkRecord =
  name :: val
  web_target :: val
  web_url :: string
  created_at :: string
  created_by_ip :: string
  visits :: nat
  visit_history :: "Visit list"

text \<open>
  The database object \<open>db\<close>: its own properties in the order JavaScript keeps them, which is
  the order \<open>JSON.stringify\<close> writes them in. Keys that are array indices (canonical decimal
  numerals below \<open>2 ^ 32 - 1 = 4294967295\<close>) come first, in ascending numeric order; all
  other keys follow in the order of their creation.
\<close>

type_synonym db = "(string \<times> ShortLinkRecord) list"

definition array_index :: "string \<Rightarrow> nat option" where
  "array_index k =
     (case read_nat k of
        None \<Rightarrow> None
      | Some n \<Rightarrow> if k = show_nat n \<and> n < 4294967295 then Some n else None)"

definition precedes :: "string \<Rightarrow> string \<Rightarrow> bool" where
  "precedes k k' =
     (case array_index k of
        None \<Rightarrow> False
      | Some i \<Rightarrow> (case array_index k' of None \<Rightarrow> True | Some j \<Rightarrow> i < j))"

fun insert_key :: "string \<Rightarrow> 'v \<Rightarrow> (string \<times> 'v) list \<Rightarrow> (string \<times> 'v) list" where
  "insert_key k v [] = [(k, v)]"
| "insert_key k v ((k', v') # kvs) =
     (if precedes k k' then (k, v) # (k', v') # kvs else (k', v') # insert_key k v kvs)"

fun update_key :: "string \<Rightarrow> 'v \<Rightarrow> (string \<times> 'v) list \<Rightarrow> (string \<times> 'v) list" where
  "update_key k v [] = []"
| "update_key k v ((k', v') # kvs) =
     (if k = k' then (k, v) # kvs else (k', v') # update_key k v kvs)"

text \<open>\<open>db[name] = value\<close>: an own property keeps its place, a new one is put in key order.\<close>

definition obj_set :: "(string \<times> 'v) list \<Rightarrow> string \<Rightarrow> 'v \<Rightarrow> (string \<times> 'v) list" where
  "obj_set kvs k v = (if k \<in> set (map fst kvs) then update_key k v kvs else insert_key k v kvs)"

text \<open>
  \<open>db[name]\<close> reads an own property first and then the prototype chain. \<open>db\<close> comes from
  \<open>JSON.parse\<close> or is \<open>{}\<close>, so its prototype is \<open>Object.prototype\<close>, whose properties are
  functions, or (\<open>__proto__\<close>) the prototype object itself.
\<close>

definition Object_prototype :: "string list" where
  "Object_prototype =
     [''constructor'', ''__defineGetter__'', ''__defineSetter__'', ''hasOwnProperty'',
      ''__lookupGetter__'', ''__lookupSetter__'', ''isPrototypeOf'', ''propertyIsEnumerable'',
      ''toString'', ''valueOf'', ''__proto__'', ''toLocaleString'']"

datatype property = Undefined | Own ShortLinkRecord | Inherited string

definition get :: "db \<Rightarrow> string \<Rightarrow> property" where
  "get db k =
     (case map_of db k of
        Some r \<Rightarrow> Own r
      | None \<Rightarrow> if k \<in> set Object_prototype then Inherited k else Undefined)"

text \<open>Truthiness, as \<open>if (db[name])\<close> and \<open>if (!urlData)\<close> test it: objects and functions are truthy.\<close>

fun truthy :: "property \<Rightarrow> bool" where
  "truthy Undefined = False"
| "truthy (Own r) = True"
| "truthy (Inherited p) = True"

subsection \<open>The store as JSON\<close>

text \<open>
  A value as \<open>JSON.stringify\<close> writes it: a number by its text, or as \<open>null\<close> when it is not
  finite; the members of an object in the order of its properties.
\<close>

fun val_json :: "val \<Rightarrow> json"
  and vals_json :: "val list \<Rightarrow> json list"
  and members_json :: "(string \<times> val) list \<Rightarrow> (string \<times> json) list"
where
  "val_json VNull = JNull"
| "val_json (VBool b) = JBool b"
| "val_json (VNum t) = (if t \<in> set [''Infinity'', ''-Infinity'', ''NaN''] then JNull else JNum t)"
| "val_json (VStr s) = JStr (quote_body s)"
| "val_json (VArr vs) = JArr (vals_json vs)"
| "val_json (VObj ms) = JObj (members_json ms)"
| "vals_json [] = []"
| "vals_json (v # vs) = val_json v # vals_json vs"
| "members_json [] = []"
| "members_json ((k, v) # ms) = (quote_body k, val_json v) # members_json ms"

definition visit_json :: "Visit \<Rightarrow> json" where
  "visit_json v =
     JObj [(''ip'', JStr (quote_body (ip v))), (''timestamp'', JStr (quote_body (timestamp v)))]"

definition record_keys :: "string list" where
  "record_keys =
     [''name'', ''web_target'', ''web_url'', ''created_at'', ''created_by_ip'', ''visits'',
      ''visit_history'']"

definition record_json :: "ShortLinkRecord \<Rightarrow> json" where
  "record_json r =
     JObj (zip record_keys
       [val_json (name r), val_json (web_target r),
        JStr (quote_body (web_url r)), JStr (quote_body (created_at r)),
        JStr (quote_body (created_by_ip r)), JNum (show_nat (visits r)),
        JArr (map visit_json (visit_history r))])"

definition db_json :: "db \<Rightarrow> json" where
  "db_json db = JObj (map (\<lambda>(k, r). (quote_body k, record_json r)) db)"

text \<open>\<open>JSON.stringify(data, null, 2)\<close> at line 36, for a database object.\<close>

definition JSON_stringify :: "db \<Rightarrow> string" where
  "JSON_stringify db = JSON_print 0 (db_json db)"

text \<open>
  The typed view of a parsed text. It is \<open>Some\<close> for a document of the layout of section 6
  of the specification: an object whose members are records with the seven fields in the
  order the service writes them and visits with their two, with strings that \<open>unescape\<close> can
  read and numbers written in plain digits and not above \<open>2 ^ 53\<close>, which \<open>JSON.parse\<close> reads
  exactly. These are the numbers that counting up from \<open>0\<close> reaches. For any other document
  (\<open>None\<close>) the handlers would work on values outside the data model, and the model makes no
  statement.
\<close>

definition str_of :: "json \<Rightarrow> string option" where
  "str_of j = (case j of JStr b \<Rightarrow> unescape b | _ \<Rightarrow> None)"

definition plain_number :: "string \<Rightarrow> nat option" where
  "plain_number t =
     (case read_nat t of
        None \<Rightarrow> None
      | Some n \<Rightarrow> if t = show_nat n \<and> n \<le> max_count then Some n else None)"

definition nat_of :: "json \<Rightarrow> nat option" where
  "nat_of j = (case j of JNum t \<Rightarrow> plain_number t | _ \<Rightarrow> None)"

text \<open>
  The value of a JSON text. The members of an object are defined one after the other, as
  \<open>JSON.parse\<close> creates the properties: a key that comes again replaces the value and keeps
  the place.
\<close>

fun json_val :: "json \<Rightarrow> val option"
  and json_vals :: "json list \<Rightarrow> val list option"
  and json_members :: "(string \<times> json) list \<Rightarrow> (string \<times> val) list \<Rightarrow> (string \<times> val) list option"
where
  "json_val JNull = Some VNull"
| "json_val (JBool b) = Some (VBool b)"
| "json_val (JNum t) = (case plain_number t of None \<Rightarrow> None | Some n \<Rightarrow> Some (VNum t))"
| "json_val (JStr s) = map_option VStr (unescape s)"
| "json_val (JArr js) = map_option VArr (json_vals js)"
| "json_val (JObj ms) = map_option VObj (json_members ms [])"
| "json_vals [] = Some []"
| "json_vals (j # js) =
     (case json_val j of
        None \<Rightarrow> None
      | Some v \<Rightarrow> map_option ((#) v) (json_vals js))"
| "json_members [] acc = Some acc"
| "json_members ((k, j) # ms) acc =
     (case (unescape k, json_val j) of
        (Some key, Some v) \<Rightarrow> json_members ms (obj_set acc key v)
      | _ \<Rightarrow> None)"

definition member_values :: "string list \<Rightarrow> json \<Rightarrow> json list option" where
  "member_values ks j =
     (case j of
        JObj ms \<Rightarrow> if map (unescape \<circ> fst) ms = map Some ks then Some (map snd ms) else None
      | _ \<Rightarrow> None)"

definition as_visit :: "json \<Rightarrow> Visit option" where
  "as_visit j =
     (case member_values [''ip'', ''timestamp''] j of
        None \<Rightarrow> None
      | Some vs \<Rightarrow>
          (case (str_of (vs ! 0), str_of (vs ! 1)) of
             (Some a, Some b) \<Rightarrow> Some \<lparr>ip = a, timestamp = b\<rparr>
           | _ \<Rightarrow> None))"

fun those_visits :: "json list \<Rightarrow> Visit list option" where
  "those_visits [] = Some []"
| "those_visits (j # js) =
     (case as_visit j of
        None \<Rightarrow> None
      | Some v \<Rightarrow> map_option ((#) v) (those_visits js))"

definition history_of :: "json \<Rightarrow> Visit list option" where
  "history_of j = (case j of JArr js \<Rightarrow> those_visits js | _ \<Rightarrow> None)"

definition as_record :: "json \<Rightarrow> ShortLinkRecord option" where
  "as_record j =
     (case member_values record_keys j of
        None \<Rightarrow> None
      | Some vs \<Rightarrow>
          (case (json_val (vs ! 0), json_val (vs ! 1), str_of (vs ! 2), str_of (vs ! 3)) of
             (Some a, Some b, Some c, Some d) \<Rightarrow>
               (case (str_of (vs ! 4), nat_of (vs ! 5), history_of (vs ! 6)) of
                  (Some e, Some n, Some h) \<Rightarrow>
                    Some \<lparr>name = a, web_target = b, web_url = c, created_at = d,
                          created_by_ip = e, visits = n, visit_history = h\<rparr>
                | _ \<Rightarrow> None)
           | _ \<Rightarrow> None))"

text \<open>The members are defined one after the other, as \<open>JSON.parse\<close> creates the properties.\<close>

fun as_members :: "(string \<times> json) list \<Rightarrow> db \<Rightarrow> db option" where
  "as_members [] db = Some db"
| "as_members ((k, v) # ms) db =
     (case (unescape k, as_record v) of
        (Some key, Some r) \<Rightarrow> as_members ms (obj_set db key r)
      | _ \<Rightarrow> None)"

definition as_store :: "json \<Rightarrow> db option" where
  "as_store j = (case j of JObj ms \<Rightarrow> as_members ms [] | _ \<Rightarrow> None)"

subsection \<open>The file\<close>

text \<open>
  The state of \<open>database.json\<close> as \<open>fs.readFile\<close> and \<open>fs.writeFile\<close> see it: its text, or
  none when the file does not exist (\<open>ENOENT\<close>), and whether reading or writing fails for
  another reason (permissions, a full disk). The two flags belong to the surroundings: no
  handler changes them. A write that fails leaves the file as it was.
\<close>

record fs =
  content :: "string option"
  read_fails :: bool
  write_fails :: bool

definition readFile :: "fs \<Rightarrow> exn + string" where
  "readFile s =
     (if read_fails s then Inl (FsError EOTHER)
      else case content s of None \<Rightarrow> Inl (FsError ENOENT) | Some text \<Rightarrow> Inr text)"

definition writeFile :: "string \<Rightarrow> fs \<Rightarrow> exn + fs" where
  "writeFile text s = (if write_fails s then Inl (FsError EOTHER) else Inr (s\<lparr>content := Some text\<rparr>))"

text \<open>
  \<open>readDatabase\<close>, lines 21 to 32. \<open>data || '{}'\<close> replaces an empty text by \<open>{}\<close> before parsing.
  The \<open>catch\<close> covers the read and the parse; only \<open>ENOENT\<close> is handled, by creating the file,
  and every other exception is thrown again, as is a failure of that write.
\<close>

definition readDatabase :: "fs \<Rightarrow> (exn + json) \<times> fs" where
  "readDatabase s =
     (case readFile s of
        Inr data \<Rightarrow>
          (case JSON_parse (if data = [] then ''{}'' else data) of
             None \<Rightarrow> (Inl SyntaxError, s)
           | Some j \<Rightarrow> (Inr j, s))
      | Inl e \<Rightarrow>
          if e = FsError ENOENT then
            (case writeFile ''{}'' s of
               Inl e' \<Rightarrow> (Inl e', s)
             | Inr s' \<Rightarrow> (Inr (JObj []), s'))
          else (Inl e, s))"

text \<open>\<open>writeDatabase\<close>, lines 35 to 37.\<close>

definition writeDatabase :: "db \<Rightarrow> fs \<Rightarrow> exn + fs" where
  "writeDatabase data s = writeFile (JSON_stringify data) s"

subsection \<open>Requests and responses\<close>

text \<open>
  What a handler takes from its surroundings: \<open>req.clientIp\<close> and the value of
  \<open>new Date().toISOString()\<close> at the moment the handler asks for it. The fields \<open>url\<close> and
  \<open>name\<close> of the body are values of any kind, or absent (\<open>undefined\<close>); the path parameter
  is a string.
\<close>

record request =
  clientIp :: string
  clock :: string

text \<open>The value of \<open>data\<close> handed to \<open>res.json\<close>: a record, or an inherited built-in.\<close>

datatype payload = Link ShortLinkRecord | Builtin string

text \<open>
  \<open>Json status success message alertType data\<close> is \<open>res.status(status).json({...})\<close>, and
  \<open>Redirect status url\<close> is \<open>res.redirect(url)\<close>, which answers 302, with the value it is given.
\<close>

datatype response =
    Json nat bool "string option" "string option" "payload option"
  | Redirect nat val

definition danger :: "nat \<Rightarrow> string \<Rightarrow> response" where
  "danger status msg = Json status False (Some msg) (Some ''danger'') None"

definition missing_field :: response where
  "missing_field = danger 400 ''URL dan nama tidak boleh kosong!''"

definition invalid_url :: response where
  "invalid_url = danger 400 ''Format URL tidak valid!''"

definition invalid_name :: response where
  "invalid_name = danger 400 ''Nama hanya boleh mengandung huruf, angka, dan dash (-)!''"

definition name_taken :: response where
  "name_taken = danger 400 ''Nama URL pendek sudah digunakan! Silakan pilih nama lain.''"

definition not_found :: response where
  "not_found = danger 404 ''URL tidak ditemukan''"

definition server_error :: response where
  "server_error = danger 500 ''Terjadi kesalahan server''"

fun status :: "response \<Rightarrow> nat" where
  "status (Json st success message alertType data) = st"
| "status (Redirect st url) = st"

text \<open>
  The result of a handler: the response and the file afterwards. \<open>Foreign\<close> stands for a run
  on a file that holds JSON of another layout than the store's, about which the model
  makes no statement.
\<close>

datatype outcome = Done response fs | Foreign

definition baseUrl :: string where
  "baseUrl = ''shortmyurl.us.kg''"

text \<open>\<open>data: db[name]\<close> and \<open>data: urlData\<close> in a response; \<open>undefined\<close> is left out of the JSON.\<close>

fun data_of :: "property \<Rightarrow> payload option" where
  "data_of Undefined = None"
| "data_of (Own r) = Some (Link r)"
| "data_of (Inherited p) = Some (Builtin p)"

subsection \<open>\<open>POST /shorten\<close>\<close>

text \<open>
  \<open>isValidUrl\<close>, lines 40 to 47, answers whether \<open>new URL(string)\<close> throws. \<open>new URL\<close> converts
  its argument to a string and parses that; the URL parser is not part of the repository
  and is the parameter \<open>isValidUrl\<close> on texts here. An exception of the conversion is caught
  like one of the parser.
\<close>

definition valid_url :: "(string \<Rightarrow> bool) \<Rightarrow> val \<Rightarrow> bool" where
  "valid_url isValidUrl v = (case ToString v of Inl e \<Rightarrow> False | Inr text \<Rightarrow> isValidUrl text)"

text \<open>
  The record of lines 95 to 103 for the values \<open>url\<close> and \<open>name\<close> of the body, where \<open>key\<close> is the
  name as a string: \<open>name\<close> and \<open>web_target\<close> take the values as they are, the template
  literal of \<open>web_url\<close> the string.
\<close>

definition new_record :: "request \<Rightarrow> val \<Rightarrow> val \<Rightarrow> string \<Rightarrow> ShortLinkRecord" where
  "new_record req url nm key =
     \<lparr>name = nm, web_target = url, web_url = baseUrl @ ''/'' @ key, created_at = clock req,
      created_by_ip = clientIp req, visits = 0, visit_history = []\<rparr>"

text \<open>
  Lines 50 to 121. The test of the pattern converts the name to a string, and so does the
  property access \<open>db[name]\<close>, to the same string \<open>key\<close>. An exception of the conversion at
  line 74 reaches the \<open>catch\<close> of the handler.
\<close>

definition post_shorten ::
  "(string \<Rightarrow> bool) \<Rightarrow> request \<Rightarrow> val option \<Rightarrow> val option \<Rightarrow> fs \<Rightarrow> outcome" where
  "post_shorten isValidUrl req url nm s =
     (case (url, nm) of
        (Some u, Some n) \<Rightarrow>
          if \<not> (ToBoolean u \<and> ToBoolean n) then Done missing_field s
          else if \<not> valid_url isValidUrl u then Done invalid_url s
          else
            (case ToString n of
               Inl e \<Rightarrow> Done server_error s
             | Inr key \<Rightarrow>
                 if \<not> name_pattern key then Done invalid_name s
                 else
                   (case readDatabase s of
                      (Inl e, s1) \<Rightarrow> Done server_error s1
                    | (Inr j, s1) \<Rightarrow>
                        (case as_store j of
                           None \<Rightarrow> Foreign
                         | Some db \<Rightarrow>
                             if truthy (get db key) then Done name_taken s1
                             else
                               (let db' = obj_set db key (new_record req u n key)
                                in case writeDatabase db' s1 of
                                     Inl e \<Rightarrow> Done server_error s1
                                   | Inr s2 \<Rightarrow>
                                       Done (Json 200 True (Some ''URL pendek berhasil dibuat!'')
                                               (Some ''success'') (data_of (get db' key))) s2))))
      | _ \<Rightarrow> Done missing_field s)"

subsection \<open>\<open>GET /:name\<close>\<close>

text \<open>
  Lines 139 to 145 on the value \<open>urlData\<close>. On a record they count the visit, in the
  arithmetic of numbers, and push it on the history. On an inherited property,
  \<open>urlData.visits += 1\<close> sets a property \<open>visits\<close> (the falsy \<open>NaN\<close>) on the built-in object,
  which is no part of any store; then \<open>urlData.visit_history\<close> is \<open>undefined\<close> and the call of
  \<open>push\<close> throws a \<open>TypeError\<close>.
\<close>

fun record_visit :: "request \<Rightarrow> property \<Rightarrow> exn + ShortLinkRecord" where
  "record_visit req (Own r) =
     Inr (r\<lparr>visits := plus_one (visits r),
            visit_history := visit_history r @ [\<lparr>ip = clientIp req, timestamp = clock req\<rparr>]\<rparr>)"
| "record_visit req (Inherited p) = Inl TypeError"
| "record_visit req Undefined = Inl TypeError"

text \<open>Lines 124 to 157.\<close>

definition get_name :: "request \<Rightarrow> string \<Rightarrow> fs \<Rightarrow> outcome" where
  "get_name req nm s =
     (case readDatabase s of
        (Inl e, s1) \<Rightarrow> Done server_error s1
      | (Inr j, s1) \<Rightarrow>
          (case as_store j of
             None \<Rightarrow> Foreign
           | Some db \<Rightarrow>
               if \<not> truthy (get db nm) then Done not_found s1
               else
                 (case record_visit req (get db nm) of
                    Inl e \<Rightarrow> Done server_error s1
                  | Inr urlData \<Rightarrow>
                      (case writeDatabase (obj_set db nm urlData) s1 of
                         Inl e \<Rightarrow> Done server_error s1
                       | Inr s2 \<Rightarrow> Done (Redirect 302 (web_target urlData)) s2))))"

subsection \<open>\<open>GET /api/stats/:name\<close>\<close>

text \<open>Lines 160 to 186.\<close>

definition get_stats :: "string \<Rightarrow> fs \<Rightarrow> outcome" where
  "get_stats nm s =
     (case readDatabase s of
        (Inl e, s1) \<Rightarrow> Done server_error s1
      | (Inr j, s1) \<Rightarrow>
          (case as_store j of
             None \<Rightarrow> Foreign
           | Some db \<Rightarrow>
               if \<not> truthy (get db nm) then Done not_found s1
               else Done (Json 200 True None None (data_of (get db nm))) s1))"

subsection \<open>The store a handler finds\<close>

text \<open>
  \<open>opened s\<close> is the file after \<open>readDatabase\<close> has run on it (created with the text \<open>{}\<close> if
  it did not exist), and \<open>stored s\<close> is the database object \<open>readDatabase\<close> returns, where it
  returns one of the store's layout.
\<close>

definition opened :: "fs \<Rightarrow> fs" where
  "opened s = snd (readDatabase s)"

definition stored :: "fs \<Rightarrow> db option" where
  "stored s = (case fst (readDatabase s) of Inr j \<Rightarrow> as_store j | Inl e \<Rightarrow> None)"

definition keys_of :: "fs \<Rightarrow> string list" where
  "keys_of s = (case stored s of None \<Rightarrow> [] | Some db \<Rightarrow> map fst db)"

subsection \<open>Well-formed stores\<close>

text \<open>
  An object as JavaScript can hold it: no key twice, and the keys in the order of own
  properties (no key comes after one it precedes).
\<close>

definition key_order :: "string list \<Rightarrow> bool" where
  "key_order ks = sorted_wrt (\<lambda>a b. \<not> precedes b a) ks"

definition proper_object :: "(string \<times> 'v) list \<Rightarrow> bool" where
  "proper_object kvs \<longleftrightarrow> distinct (map fst kvs) \<and> key_order (map fst kvs)"

text \<open>
  A value that the typed view reads: its objects are such objects and its numbers are
  written in plain digits and are at most \<open>2 ^ 53\<close>.
\<close>

fun plain :: "val \<Rightarrow> bool"
  and plain_list :: "val list \<Rightarrow> bool"
  and plain_members :: "(string \<times> val) list \<Rightarrow> bool"
where
  "plain VNull = True"
| "plain (VBool b) = True"
| "plain (VNum t) = (plain_number t \<noteq> None)"
| "plain (VStr s) = True"
| "plain (VArr vs) = plain_list vs"
| "plain (VObj ms) = (proper_object ms \<and> plain_members ms)"
| "plain_list [] = True"
| "plain_list (v # vs) = (plain v \<and> plain_list vs)"
| "plain_members [] = True"
| "plain_members ((k, v) # ms) = (plain v \<and> plain_members ms)"

text \<open>
  A well-formed store: a database object as JavaScript can hold it, whose records have a
  count of at most \<open>2 ^ 53\<close>, as far as counting goes, and such values as name and target.
\<close>

definition representable :: "ShortLinkRecord \<Rightarrow> bool" where
  "representable r \<longleftrightarrow> plain (name r) \<and> plain (web_target r) \<and> visits r \<le> max_count"

definition well_formed :: "db \<Rightarrow> bool" where
  "well_formed db \<longleftrightarrow> proper_object db \<and> list_all (\<lambda>(k, r). representable r) db"

subsection \<open>Notions for the round trip\<close>

text \<open>
  \<open>tokens v\<close> are the tokens of the text of \<open>v\<close>. \<open>printed v\<close> holds when the numbers and strings
  of \<open>v\<close> are literals as \<open>JSON.stringify\<close> writes them: counts in decimal, strings quoted by
  \<open>quote_body\<close>. \<open>number_end t\<close> says that a number literal cannot go on into the text \<open>t\<close>.
\<close>

fun tokens :: "json \<Rightarrow> token list"
  and tokens_elems :: "json list \<Rightarrow> token list"
  and tokens_members :: "(string \<times> json) list \<Rightarrow> token list"
where
  "tokens JNull = [TNull]"
| "tokens (JBool b) = [if b then TTrue else TFalse]"
| "tokens (JNum n) = [TNumber n]"
| "tokens (JStr s) = [TString s]"
| "tokens (JArr vs) = LBrack # tokens_elems vs @ [RBrack]"
| "tokens (JObj ms) = LBrace # tokens_members ms @ [RBrace]"
| "tokens_elems [] = []"
| "tokens_elems (v # vs) = tokens v @ (if vs = [] then [] else Comma # tokens_elems vs)"
| "tokens_members [] = []"
| "tokens_members ((k, v) # ms) =
     TString k # Colon # tokens v @ (if ms = [] then [] else Comma # tokens_members ms)"

fun printed :: "json \<Rightarrow> bool"
  and printed_elems :: "json list \<Rightarrow> bool"
  and printed_members :: "(string \<times> json) list \<Rightarrow> bool"
where
  "printed JNull = True"
| "printed (JBool b) = True"
| "printed (JNum n) = (case read_nat n of None \<Rightarrow> False | Some m \<Rightarrow> n = show_nat m)"
| "printed (JStr s) = (case unescape s of None \<Rightarrow> False | Some t \<Rightarrow> s = quote_body t)"
| "printed (JArr vs) = printed_elems vs"
| "printed (JObj ms) = printed_members ms"
| "printed_elems [] = True"
| "printed_elems (v # vs) = (printed v \<and> printed_elems vs)"
| "printed_members [] = True"
| "printed_members ((k, v) # ms) =
     ((case unescape k of None \<Rightarrow> False | Some t \<Rightarrow> k = quote_body t) \<and> printed v
        \<and> printed_members ms)"

definition number_end :: "string \<Rightarrow> bool" where
  "number_end t \<longleftrightarrow> (case t of [] \<Rightarrow> True | c # _ \<Rightarrow> \<not> is_digit c \<and> c \<notin> set ''.eE'')"

definition prepend :: "token list \<Rightarrow> token list option \<Rightarrow> token list option" where
  "prepend ts r = map_option ((@) ts) r"

subsection \<open>The validation rules of section 4.2\<close>

text \<open>
  The four rules in the words of the specification, in its order, on the two strings that
  section 4.2 takes as input: both fields non-empty (an absent field counts as empty), the
  URL well formed, the name matching the pattern, the name not already a key of the store.
  \<open>first_failure\<close> is the first rule that does not hold, and \<open>error_response\<close> the response of
  the code for it. \<open>body_field\<close> is the field of the request body that holds such a string.
\<close>

definition body_field :: "string option \<Rightarrow> val option" where
  "body_field x = map_option VStr x"

datatype failure = Missing_field | Invalid_url | Invalid_name | Name_taken

definition field :: "string option \<Rightarrow> string" where
  "field x = (case x of None \<Rightarrow> [] | Some v \<Rightarrow> v)"

definition first_failure ::
  "(string \<Rightarrow> bool) \<Rightarrow> string list \<Rightarrow> string option \<Rightarrow> string option \<Rightarrow> failure option" where
  "first_failure url_ok ks url nm =
     (if field url = [] \<or> field nm = [] then Some Missing_field
      else if \<not> url_ok (field url) then Some Invalid_url
      else if \<not> name_pattern (field nm) then Some Invalid_name
      else if field nm \<in> set ks then Some Name_taken
      else None)"

fun error_response :: "failure \<Rightarrow> response" where
  "error_response Missing_field = missing_field"
| "error_response Invalid_url = invalid_url"
| "error_response Invalid_name = invalid_name"
| "error_response Name_taken = name_taken"

subsection \<open>The store invariant, and requests in sequence\<close>

text \<open>The invariant of section 3: every record is stored under its own name.\<close>

definition key_invariant :: "db \<Rightarrow> bool" where
  "key_invariant db = list_all (\<lambda>(k, r). name r = VStr k) db"

definition invariant_holds :: "fs \<Rightarrow> bool" where
  "invariant_holds s = (case stored s of None \<Rightarrow> False | Some db \<Rightarrow> key_invariant db)"

text \<open>
  \<open>visit_of q\<close> is the history entry of the request \<open>q\<close>. \<open>resolve_all qs nm s\<close> sends the requests
  \<open>qs\<close> for the name one after the other, each on the file the one before has left, and
  collects the responses.
\<close>

definition visit_of :: "request \<Rightarrow> Visit" where
  "visit_of q = \<lparr>ip = clientIp q, timestamp = clock q\<rparr>"


text \<open>
  The persisted state that section 4.1 calls unreadable or corrupt: reading fails for
  another reason than a missing file, or the text is not empty and is not JSON.
\<close>

definition corrupt :: "fs \<Rightarrow> bool" where
  "corrupt s \<longleftrightarrow>
     read_fails s \<or> (case content s of None \<Rightarrow> False | Some text \<Rightarrow> text \<noteq> [] \<and> JSON_parse text = None)"

subsection \<open>Sample data\<close>

text \<open>
  A file with one record under the key \<open>a\<close>, no file at all, a file with no text in it, a
  file whose text is not JSON, a request, two requests in a row, and a stand-in for the
  URL parser that accepts a text with a colon in it; the record with a count of \<open>2 ^ 53\<close> and
  the file that holds it; the record that the request makes of the name \<open>["ab"]\<close>.
\<close>

definition quoted :: "string \<Rightarrow> string" where
  "quoted s = DQ # s @ [DQ]"

definition sample_text :: string where
  "sample_text =
     ''{'' @ quoted ''a'' @ '':{''
       @ quoted ''name'' @ '':'' @ quoted ''a'' @ '',''
       @ quoted ''web_target'' @ '':'' @ quoted ''x:y'' @ '',''
       @ quoted ''web_url'' @ '':'' @ quoted ''shortmyurl.us.kg/a'' @ '',''
       @ quoted ''created_at'' @ '':'' @ quoted ''t0'' @ '',''
       @ quoted ''created_by_ip'' @ '':'' @ quoted ''::1'' @ '',''
       @ quoted ''visits'' @ '':0,''
       @ quoted ''visit_history'' @ '':[]}}''"

definition sample_record :: ShortLinkRecord where
  "sample_record =
     \<lparr>name = VStr ''a'', web_target = VStr ''x:y'', web_url = ''shortmyurl.us.kg/a'', created_at = ''t0'',
      created_by_ip = ''::1'', visits = 0, visit_history = []\<rparr>"


definition sample_fs :: fs where
  "sample_fs = \<lparr>content = Some sample_text, read_fails = False, write_fails = False\<rparr>"

definition no_file :: fs where
  "no_file = \<lparr>content = None, read_fails = False, write_fails = False\<rparr>"

definition empty_file :: fs where
  "empty_file = \<lparr>content = Some [], read_fails = False, write_fails = False\<rparr>"

definition broken_file :: fs where
  "broken_file = \<lparr>content = Some ''{'', read_fails = False, write_fails = False\<rparr>"

definition sample_request :: request where
  "sample_request = \<lparr>clientIp = ''::1'', clock = ''t1''\<rparr>"

definition has_scheme :: "string \<Rightarrow> bool" where
  "has_scheme u \<longleftrightarrow> CHR '':'' \<in> set u"


definition array_record :: ShortLinkRecord where
  "array_record =
     new_record sample_request (VStr ''https://example.com'') (VArr [VStr ''ab'']) ''ab''"


section \<open>Properties of the model\<close>

subsection \<open>Strings\<close>

text \<open>
  A string quoted by \<open>quote_body\<close> is read by the tokeniser up to its closing quote, as the
  quoted body, and \<open>unescape\<close> reads the string back from the body.
\<close>

lemma code_char_of: "n < 256 \<Longrightarrow> code (char_of n) = n"
  by (simp add: code_def)

lemma char_of_code: "char_of (code c) = c"
  by (simp add: code_def)

lemma code_inject: "code c = code d \<longleftrightarrow> c = d"
  by (simp add: code_def)

lemma hex_digit_props:
  assumes "k < 16"
  shows "is_hex (hex_digit k)" "hex_value (hex_digit k) = k"
  using assms
  by (auto simp: hex_digit_def is_hex_def is_digit_def hex_value_def code_char_of)

lemma lex_string_plain:
  "c \<noteq> DQ \<Longrightarrow> c \<noteq> BSL \<Longrightarrow> \<not> code c < 32 \<Longrightarrow> t \<noteq> [] \<Longrightarrow>
   lex_string (c # t) = map_option (\<lambda>(b, r). (c # b, r)) (lex_string t)"
  by (cases t) simp_all

lemma lex_string_escape:
  "e \<in> set (DQ # BSL # ''/bfnrt'') \<Longrightarrow>
   lex_string (BSL # e # t) = map_option (\<lambda>(b, r). (BSL # e # b, r)) (lex_string t)"
  by simp

lemma lex_string_unicode:
  "is_hex h1 \<Longrightarrow> is_hex h2 \<Longrightarrow> is_hex h3 \<Longrightarrow> is_hex h4 \<Longrightarrow>
   lex_string (BSL # CHR ''u'' # h1 # h2 # h3 # h4 # t)
     = map_option (\<lambda>(b, r). (BSL # CHR ''u'' # h1 # h2 # h3 # h4 # b, r)) (lex_string t)"
  by simp

lemma is_hex_zero: "is_hex (CHR ''0'')"
  by (simp add: is_hex_def is_digit_def code_def)

lemma lex_string_quote_char:
  assumes "t \<noteq> []"
  shows "lex_string (quote_char c @ t)
           = map_option (\<lambda>(b, r). (quote_char c @ b, r)) (lex_string t)"
proof -
  consider (dq) "c = DQ" | (bsl) "c = BSL"
    | (short) e where "c \<noteq> DQ" "c \<noteq> BSL" "quote_char c = [BSL, e]" "e \<in> set ''bfnrt''"
    | (uni) "c \<noteq> DQ" "c \<noteq> BSL" "code c < 32"
        "quote_char c = BSL # ''u00'' @ [hex_digit (code c div 16), hex_digit (code c mod 16)]"
    | (plain) "c \<noteq> DQ" "c \<noteq> BSL" "\<not> code c < 32" "quote_char c = [c]"
  proof (cases "short_escape c")
    case None
    then show ?thesis
      using dq bsl uni plain by (cases "code c < 32") (auto simp: quote_char_def)
  next
    case (Some e)
    then have "e \<in> set ''bfnrt''"
      by (auto simp: short_escape_def split: if_splits)
    then show ?thesis
      using dq bsl short [of e] Some by (auto simp: quote_char_def)
  qed
  then show ?thesis
  proof cases
    case dq
    then show ?thesis by (simp add: quote_char_def)
  next
    case bsl
    then show ?thesis by (simp add: quote_char_def)
  next
    case short
    then show ?thesis using lex_string_escape [of e t] by auto
  next
    case uni
    have "is_hex (hex_digit (code c div 16))" "is_hex (hex_digit (code c mod 16))"
      using uni(3) by (simp_all add: hex_digit_props)
    then show ?thesis
      using uni(4) lex_string_unicode [OF is_hex_zero is_hex_zero, of _ _ t] by simp
  next
    case plain
    then show ?thesis using assms by (simp add: lex_string_plain)
  qed
qed

lemma lex_string_quote_body:
  "lex_string (quote_body s @ DQ # rest) = Some (quote_body s, rest)"
proof (induction s)
  case Nil
  show ?case by (cases rest) (simp_all add: quote_body_def)
next
  case (Cons c s)
  have "lex_string (quote_char c @ (quote_body s @ DQ # rest))
          = map_option (\<lambda>(b, r). (quote_char c @ b, r)) (lex_string (quote_body s @ DQ # rest))"
    by (rule lex_string_quote_char) simp
  then show ?case using Cons by (simp add: quote_body_def)
qed

lemma char_by_code: "code c = code d \<Longrightarrow> c = d"
  by (simp add: code_def)

lemma short_escape_inverse:
  assumes "short_escape c = Some e"
  shows "simple_escape e = Some c" "e \<noteq> CHR ''u''" "e \<in> set ''bfnrt''"
proof -
  have "(code c = 8 \<and> e = CHR ''b'') \<or> (code c = 12 \<and> e = CHR ''f'')
      \<or> (code c = 10 \<and> e = CHR ''n'') \<or> (code c = 13 \<and> e = CHR ''r'')
      \<or> (code c = 9 \<and> e = CHR ''t'')"
    using assms by (auto simp: short_escape_def split: if_splits)
  moreover have "code (CHR 0x08) = 8" "code (CHR 0x0C) = 12" "code (CHR 0x0A) = 10"
    "code (CHR 0x0D) = 13" "code (CHR 0x09) = 9"
    by (simp_all add: code_def)
  ultimately have "(c = CHR 0x08 \<and> e = CHR ''b'') \<or> (c = CHR 0x0C \<and> e = CHR ''f'')
      \<or> (c = CHR 0x0A \<and> e = CHR ''n'') \<or> (c = CHR 0x0D \<and> e = CHR ''r'')
      \<or> (c = CHR 0x09 \<and> e = CHR ''t'')"
    using char_by_code [of c] by metis
  then show "simple_escape e = Some c" "e \<noteq> CHR ''u''" "e \<in> set ''bfnrt''"
    by (auto simp: simple_escape_def)
qed

lemma unescape_plain:
  "c \<noteq> BSL \<Longrightarrow> unescape (c # t) = map_option ((#) c) (unescape t)"
  by (cases t) simp_all

lemma unicode_escape_low:
  assumes "code c < 32"
  shows "unicode_escape (''00'' @ [hex_digit (code c div 16), hex_digit (code c mod 16)]) = Some c"
proof -
  have d: "code c div 16 < 16" "code c mod 16 < 16" using assms by simp_all
  have z: "hex_value (CHR ''0'') = 0"
    by (simp add: hex_value_def is_digit_def code_def)
  have "foldl (\<lambda>a h. 16 * a + hex_value h) 0
          (''00'' @ [hex_digit (code c div 16), hex_digit (code c mod 16)]) = code c"
    using d by (simp add: z hex_digit_props)
  moreover have "list_all is_hex (''00'' @ [hex_digit (code c div 16), hex_digit (code c mod 16)])"
    using d by (simp add: is_hex_zero hex_digit_props)
  ultimately show ?thesis
    using assms by (simp add: unicode_escape_def char_of_code del: foldl.simps)
qed

lemma unescape_quote_char:
  "unescape (quote_char c @ t) = map_option ((#) c) (unescape t)"
proof (cases "c = DQ \<or> c = BSL")
  case True
  then show ?thesis by (auto simp: quote_char_def simple_escape_def)
next
  case False
  show ?thesis
  proof (cases "short_escape c")
    case (Some e)
    then show ?thesis
      using False short_escape_inverse [OF Some] by (simp add: quote_char_def)
  next
    case None
    show ?thesis
    proof (cases "code c < 32")
      case True
      have "unescape (BSL # CHR ''u'' # (''00'' @ [hex_digit (code c div 16), hex_digit (code c mod 16)]) @ t)
              = map_option ((#) c) (unescape t)"
        using unicode_escape_low [OF True] by simp
      then show ?thesis using False None True by (simp add: quote_char_def)
    next
      case c: False
      then show ?thesis using False None by (simp add: quote_char_def unescape_plain)
    qed
  qed
qed

lemma unescape_quote_body: "unescape (quote_body s) = Some s"
  by (induction s) (simp_all add: quote_body_def unescape_quote_char)

subsection \<open>Counts\<close>

text \<open>
  The decimal literal of a count is read by the tokeniser as one number, where the text
  after it cannot continue a number, and \<open>read_nat\<close> reads the count back from the literal.
\<close>

lemma is_digit_char_of: "(d::nat) < 10 \<Longrightarrow> is_digit (char_of (48 + d))"
  by (simp add: is_digit_def code_char_of)

lemma digit_value: "(d::nat) < 10 \<Longrightarrow> code (char_of (48 + d)) - 48 = d"
  by (simp add: code_char_of)

lemma show_nat_digits: "list_all is_digit (show_nat n)"
proof (induction n rule: show_nat.induct)
  case (1 n)
  show ?case
  proof (cases "n < 10")
    case True
    then show ?thesis by (subst show_nat.simps) (simp add: is_digit_char_of)
  next
    case False
    then show ?thesis
      using 1 by (subst show_nat.simps) (simp add: is_digit_char_of)
  qed
qed

lemma show_nat_nonempty: "show_nat n \<noteq> []"
  by (subst show_nat.simps) simp

lemma show_nat_zero: "show_nat 0 = ''0''"
proof -
  have "code (char_of (48::nat)) = code (CHR ''0'')"
    by (simp add: code_char_of) (simp add: code_def)
  then have "char_of (48::nat) = CHR ''0''" by (rule char_by_code)
  then show ?thesis by (subst show_nat.simps) simp
qed

lemma show_nat_hd: "0 < n \<Longrightarrow> hd (show_nat n) \<noteq> CHR ''0''"
proof (induction n rule: show_nat.induct)
  case (1 n)
  show ?case
  proof (cases "n < 10")
    case True
    have "code (char_of (48 + n)) \<noteq> code (CHR ''0'')"
      using True "1.prems" by (simp add: code_char_of) (simp add: code_def)
    then have "char_of (48 + n) \<noteq> CHR ''0''" by auto
    then show ?thesis using True by (subst show_nat.simps) simp
  next
    case False
    then have "0 < n div 10" by simp
    then have "hd (show_nat (n div 10)) \<noteq> CHR ''0''" using 1 False by simp
    then show ?thesis
      using False show_nat_nonempty [of "n div 10"] by (subst show_nat.simps) simp
  qed
qed

lemma read_digits_show_nat: "foldl (\<lambda>a d. 10 * a + (code d - 48)) 0 (show_nat n) = n"
proof (induction n rule: show_nat.induct)
  case (1 n)
  show ?case
  proof (cases "n < 10")
    case True
    then show ?thesis by (subst show_nat.simps) (simp add: digit_value)
  next
    case False
    then show ?thesis
      using 1 by (subst show_nat.simps) (simp add: digit_value)
  qed
qed

lemma read_nat_show_nat: "read_nat (show_nat n) = Some n"
  by (simp add: read_nat_def show_nat_digits show_nat_nonempty read_digits_show_nat)

lemma span_digits:
  assumes "list_all is_digit ds" "number_end t"
  shows "takeWhile is_digit (ds @ t) = ds" "dropWhile is_digit (ds @ t) = t"
proof -
  have "takeWhile is_digit t = []" "dropWhile is_digit t = t"
    using assms(2) by (cases t; simp add: number_end_def)+
  moreover have "\<forall>d \<in> set ds. is_digit d"
    using assms(1) by (simp add: list_all_iff)
  ultimately show "takeWhile is_digit (ds @ t) = ds" "dropWhile is_digit (ds @ t) = t"
    by (simp_all add: takeWhile_append2 dropWhile_append2)
qed

lemma lex_frac_end: "number_end t \<Longrightarrow> lex_frac t = Some ([], t)"
  by (cases t) (auto simp: lex_frac_def number_end_def)

lemma lex_exp_end: "number_end t \<Longrightarrow> lex_exp t = Some ([], t)"
  by (cases t) (auto simp: lex_exp_def number_end_def)

lemma lex_int_show_nat:
  assumes "number_end t"
  shows "lex_int (show_nat n @ t) = Some (show_nat n, t)"
proof (cases "n = 0")
  case True
  then show ?thesis by (simp add: show_nat_zero lex_int_def)
next
  case False
  obtain c cs where cs: "show_nat n = c # cs"
    using show_nat_nonempty [of n] by (cases "show_nat n") auto
  have "c \<noteq> CHR ''0''" using show_nat_hd [of n] False cs by simp
  moreover have "is_digit c" using show_nat_digits [of n] cs by simp
  moreover have "takeWhile is_digit (show_nat n @ t) = show_nat n"
    "dropWhile is_digit (show_nat n @ t) = t"
    using span_digits [OF show_nat_digits assms] by simp_all
  ultimately show ?thesis
    using cs by (simp add: lex_int_def)
qed

lemma show_nat_first:
  "\<exists>c cs. show_nat n = c # cs \<and> is_digit c \<and> c \<noteq> CHR ''-''"
proof -
  obtain c cs where cs: "show_nat n = c # cs"
    using show_nat_nonempty [of n] by (cases "show_nat n") auto
  have d: "is_digit c" using show_nat_digits [of n] cs by simp
  then have "c \<noteq> CHR ''-''" by (auto simp: is_digit_def code_def)
  then show ?thesis using cs d by blast
qed

lemma lex_number_show_nat:
  assumes "number_end t"
  shows "lex_number (show_nat n @ t) = Some (show_nat n, t)"
proof -
  obtain c cs where cs: "show_nat n = c # cs" "c \<noteq> CHR ''-''"
    using show_nat_first by blast
  then have "(if show_nat n @ t \<noteq> [] \<and> hd (show_nat n @ t) = CHR ''-'' then ''-'' else []) = []"
    by simp
  then show ?thesis
    using lex_int_show_nat [OF assms, of n] lex_frac_end [OF assms] lex_exp_end [OF assms]
    by (simp add: lex_number_def)
qed

subsection \<open>The tokens of a printed value\<close>

text \<open>The text that \<open>JSON_print\<close> writes for a value has the tokens of the value.\<close>

lemma prepend_simps:
  "prepend [] r = r"
  "prepend ts (prepend us r) = prepend (ts @ us) r"
  "prepend ts (Some us) = Some (ts @ us)"
  "prepend ts None = None"
  by (cases r; simp add: prepend_def)+

lemma prepend_one: "map_option ((#) x) r = prepend [x] r"
  by (cases r) (simp_all add: prepend_def)

lemma tokenize_ws: "is_ws c \<Longrightarrow> tokenize (c # t) = tokenize t"
  by (simp add: tokenize.simps(2) lex_step_def)

lemma tokenize_indent: "tokenize (indent n @ t) = tokenize t"
proof -
  have "tokenize (replicate k (CHR '' '') @ t) = tokenize t" for k
    by (induction k) (simp_all add: tokenize_ws is_ws_def code_def)
  then show ?thesis by (simp add: indent_def)
qed

lemma tokenize_newline: "tokenize (NL # t) = tokenize t"
  by (simp add: tokenize_ws is_ws_def code_def)

lemma tokenize_punctuation:
  "tokenize (CHR ''{'' # t) = prepend [LBrace] (tokenize t)"
  "tokenize (CHR ''}'' # t) = prepend [RBrace] (tokenize t)"
  "tokenize (CHR ''['' # t) = prepend [LBrack] (tokenize t)"
  "tokenize (CHR '']'' # t) = prepend [RBrack] (tokenize t)"
  "tokenize (CHR '':'' # t) = prepend [Colon] (tokenize t)"
  "tokenize (CHR '','' # t) = prepend [Comma] (tokenize t)"
  by (simp_all add: tokenize.simps(2) lex_step_def is_ws_def code_def prepend_one)

lemma tokenize_literals:
  "tokenize (''null'' @ t) = prepend [TNull] (tokenize t)"
  "tokenize (''true'' @ t) = prepend [TTrue] (tokenize t)"
  "tokenize (''false'' @ t) = prepend [TFalse] (tokenize t)"
  by (simp_all add: tokenize.simps(2) lex_step_def is_ws_def is_digit_def code_def starts_with_def
      prepend_one)

lemma tokenize_quoted:
  "tokenize (DQ # quote_body s @ DQ # t) = prepend [TString (quote_body s)] (tokenize t)"
  by (simp add: tokenize.simps(2) lex_step_def is_ws_def code_def lex_string_quote_body prepend_one)

lemma digit_starts_number:
  assumes "is_digit c"
  shows "lex_step c t = map_option (\<lambda>(n, r). (Some (TNumber n), r)) (lex_number (c # t))"
proof -
  have "\<not> is_ws c" using assms by (auto simp: is_digit_def is_ws_def)
  moreover have "c \<notin> set (DQ # ''{}[]:,'')"
    using assms by (auto simp: is_digit_def code_def)
  ultimately show ?thesis using assms by (simp add: lex_step_def)
qed

lemma tokenize_count:
  assumes "number_end t"
  shows "tokenize (show_nat n @ t) = prepend [TNumber (show_nat n)] (tokenize t)"
proof -
  obtain c cs where cs: "show_nat n = c # cs" "is_digit c"
    using show_nat_first by blast
  have "lex_number (c # cs @ t) = Some (show_nat n, t)"
    using lex_number_show_nat [OF assms, of n] cs by simp
  then show ?thesis
    using cs digit_starts_number [OF cs(2), of "cs @ t"]
    by (simp add: tokenize.simps(2) prepend_one)
qed

lemma number_end_after:
  "number_end (CHR '','' # t)" "number_end (NL # t)" "number_end (CHR ''}'' # t)"
  "number_end (CHR '']'' # t)" "number_end []"
  by (simp_all add: number_end_def is_digit_def code_def)

lemma tokenize_space: "tokenize (CHR '' '' # t) = tokenize t"
  by (simp add: tokenize_ws is_ws_def code_def)

lemma tokenize_printed:
  "printed v \<Longrightarrow> number_end rest \<Longrightarrow>
     tokenize (JSON_print i v @ rest) = prepend (tokens v) (tokenize rest)"
  "printed_elems vs \<Longrightarrow> number_end rest \<Longrightarrow>
     tokenize (print_elems i vs @ rest) = prepend (tokens_elems vs) (tokenize rest)"
  "printed_members ms \<Longrightarrow> number_end rest \<Longrightarrow>
     tokenize (print_members i ms @ rest) = prepend (tokens_members ms) (tokenize rest)"
proof (induction i v and i vs and i ms arbitrary: rest and rest and rest
    rule: JSON_print_print_elems_print_members.induct)
  case (1 i)
  show ?case using tokenize_literals(1) [of rest] by simp
next
  case (2 i b)
  show ?case
    using tokenize_literals(2,3) [of rest] by (cases b) simp_all
next
  case (3 i n)
  then obtain m where "n = show_nat m" by (auto split: option.splits)
  then show ?case
    using tokenize_count [OF "3.prems"(2), of m] by simp
next
  case (4 i s)
  then obtain t where "s = quote_body t" by (auto split: option.splits)
  then show ?case
    using tokenize_quoted [of t rest] by simp
next
  case (5 i vs)
  show ?case
  proof (cases "vs = []")
    case True
    then show ?thesis
      by (simp add: tokenize_punctuation prepend_simps)
  next
    case False
    have "tokenize (print_elems (Suc i) vs @ NL # indent i @ CHR '']'' # rest)
            = prepend (tokens_elems vs) (tokenize (NL # indent i @ CHR '']'' # rest))"
      using False "5.prems"(1) by (intro "5.IH") (simp_all add: number_end_after)
    then show ?thesis
      using False
      by (simp add: tokenize_punctuation tokenize_newline tokenize_indent prepend_simps)
  qed
next
  case (6 i ms)
  show ?case
  proof (cases "ms = []")
    case True
    then show ?thesis
      by (simp add: tokenize_punctuation prepend_simps)
  next
    case False
    have "tokenize (print_members (Suc i) ms @ NL # indent i @ CHR ''}'' # rest)
            = prepend (tokens_members ms) (tokenize (NL # indent i @ CHR ''}'' # rest))"
      using False "6.prems"(1) by (intro "6.IH") (simp_all add: number_end_after)
    then show ?thesis
      using False
      by (simp add: tokenize_punctuation tokenize_newline tokenize_indent prepend_simps)
  qed
next
  case (7 i)
  show ?case by (simp add: prepend_simps)
next
  case (8 i v vs)
  show ?case
  proof (cases "vs = []")
    case True
    then show ?thesis using 8 by simp
  next
    case False
    have a: "tokenize (JSON_print i v @ CHR '','' # NL # indent i @ print_elems i vs @ rest)
               = prepend (tokens v)
                   (tokenize (CHR '','' # NL # indent i @ print_elems i vs @ rest))"
      using "8.prems"(1) by (intro "8.IH"(1)) (simp_all add: number_end_after)
    have b: "tokenize (print_elems i vs @ rest)
               = prepend (tokens_elems vs) (tokenize rest)"
      using False "8.prems" by (intro "8.IH"(2)) simp_all
    show ?thesis
      using False a b
      by (simp add: tokenize_punctuation tokenize_newline tokenize_indent prepend_simps)
  qed
next
  case (9 i)
  show ?case by (simp add: prepend_simps)
next
  case (10 i k v ms)
  from "10.prems"(1) obtain t where k: "k = quote_body t" by (auto split: option.splits)
  show ?case
  proof (cases "ms = []")
    case True
    have "tokenize (JSON_print i v @ rest) = prepend (tokens v) (tokenize rest)"
      using "10.prems" by (intro "10.IH"(1)) simp_all
    then show ?thesis
      using True k tokenize_quoted [of t "'': '' @ JSON_print i v @ rest"]
      by (simp add: tokenize_punctuation tokenize_space prepend_simps)
  next
    case False
    have a: "tokenize (JSON_print i v @ CHR '','' # NL # indent i @ print_members i ms @ rest)
               = prepend (tokens v)
                   (tokenize (CHR '','' # NL # indent i @ print_members i ms @ rest))"
      using "10.prems"(1) by (intro "10.IH"(1)) (simp_all add: number_end_after)
    have b: "tokenize (print_members i ms @ rest)
               = prepend (tokens_members ms) (tokenize rest)"
      using False "10.prems" by (intro "10.IH"(2)) simp_all
    show ?thesis
      using False k a b
        tokenize_quoted [of t "'': '' @ JSON_print i v @ CHR '','' # NL # indent i @ print_members i ms @ rest"]
      by (simp add: tokenize_punctuation tokenize_newline tokenize_space tokenize_indent
          prepend_simps)
  qed
qed

subsection \<open>Parsing the tokens of a value\<close>

text \<open>The tokens of a value parse to the value, and so does its printed text.\<close>

lemma tokens_head: "\<exists>t ts. tokens v = t # ts \<and> t \<noteq> RBrack \<and> t \<noteq> RBrace"
  by (cases v) auto

lemma tokens_elems_head:
  "vs \<noteq> [] \<Longrightarrow> \<exists>t ts. tokens_elems vs @ us = t # ts \<and> t \<noteq> RBrack"
proof (cases vs)
  case Nil
  then show "vs \<noteq> [] \<Longrightarrow> ?thesis" by simp
next
  case (Cons v ws)
  obtain t ts where "tokens v = t # ts" "t \<noteq> RBrack"
    using tokens_head [of v] by blast
  then show ?thesis using Cons by simp
qed

lemma tokens_members_head:
  "ms \<noteq> [] \<Longrightarrow> \<exists>t ts. tokens_members ms @ us = t # ts \<and> t \<noteq> RBrace"
  by (cases ms) auto

lemma parse_tokens:
  "parse_value (tokens v @ rest) = Some (v, rest)"
  "vs \<noteq> [] \<Longrightarrow> parse_elems (tokens_elems vs @ RBrack # rest) = Some (vs, rest)"
  "ms \<noteq> [] \<Longrightarrow> parse_members (tokens_members ms @ RBrace # rest) = Some (ms, rest)"
proof (induction v and vs and ms arbitrary: rest and rest and rest
    rule: tokens_tokens_elems_tokens_members.induct)
  case 1
  show ?case by simp
next
  case (2 b)
  show ?case by simp
next
  case (3 n)
  show ?case by simp
next
  case (4 s)
  show ?case by simp
next
  case (5 vs)
  show ?case
  proof (cases "vs = []")
    case True
    then show ?thesis by simp
  next
    case False
    obtain t ts where "tokens_elems vs @ RBrack # rest = t # ts" "t \<noteq> RBrack"
      using tokens_elems_head [OF False] by blast
    then show ?thesis using 5 [OF False, of rest] by simp
  qed
next
  case (6 ms)
  show ?case
  proof (cases "ms = []")
    case True
    then show ?thesis by simp
  next
    case False
    obtain t ts where "tokens_members ms @ RBrace # rest = t # ts" "t \<noteq> RBrace"
      using tokens_members_head [OF False] by blast
    then show ?thesis using 6 [OF False, of rest] by simp
  qed
next
  case 7
  then show ?case by simp
next
  case (8 v vs)
  show ?case
  proof (cases "vs = []")
    case True
    have "parse_value (tokens v @ RBrack # rest) = Some (v, RBrack # rest)"
      by (rule "8.IH"(1))
    then show ?thesis using True by (simp add: parse_elems.simps)
  next
    case False
    have "parse_value (tokens v @ Comma # tokens_elems vs @ RBrack # rest)
            = Some (v, Comma # tokens_elems vs @ RBrack # rest)"
      by (rule "8.IH"(1))
    moreover have "parse_elems (tokens_elems vs @ RBrack # rest) = Some (vs, rest)"
      using False by (rule "8.IH"(2) [OF False])
    ultimately show ?thesis
      using False
      by (simp add: parse_elems.simps [of "tokens v @ Comma # tokens_elems vs @ RBrack # rest"])
  qed
next
  case 9
  then show ?case by simp
next
  case (10 k v ms)
  show ?case
  proof (cases "ms = []")
    case True
    have "parse_value (tokens v @ RBrace # rest) = Some (v, RBrace # rest)"
      by (rule "10.IH"(1))
    then show ?thesis using True by (simp add: parse_members.simps)
  next
    case False
    have "parse_value (tokens v @ Comma # tokens_members ms @ RBrace # rest)
            = Some (v, Comma # tokens_members ms @ RBrace # rest)"
      by (rule "10.IH"(1))
    moreover have "parse_members (tokens_members ms @ RBrace # rest) = Some (ms, rest)"
      using False by (rule "10.IH"(2) [OF False])
    ultimately show ?thesis
      using False
      by (simp add: parse_members.simps
            [of "TString k # Colon # tokens v @ Comma # tokens_members ms @ RBrace # rest"])
  qed
qed

lemma number_end_nil: "number_end []"
  by (simp add: number_end_def)

lemma JSON_parse_print: "printed v \<Longrightarrow> JSON_parse (JSON_print i v) = Some v"
  using tokenize_printed(1) [of v "[]" i] parse_tokens(1) [of v "[]"]
  by (simp add: JSON_parse_def number_end_nil prepend_simps)

text \<open>
  Parsing consumes tokens, so the tests on the lengths in \<open>parse_elems\<close> and \<open>parse_members\<close>
  never fail: the two functions satisfy the equations of the grammar without them.
\<close>

lemma parse_consumes:
  "parse_value ts = Some (v, r) \<Longrightarrow> length r < length ts"
  "parse_elems ts = Some (vs, r) \<Longrightarrow> length r < length ts"
  "parse_members ts = Some (ms, r) \<Longrightarrow> length r < length ts"
proof (induction ts and ts and ts arbitrary: v r and vs r and ms r
    rule: parse_value_parse_elems_parse_members.induct)
  case (7 ts)
  then show ?case by (cases ts) (fastforce split: if_splits)+
next
  case (8 ts)
  then show ?case by (cases ts) (fastforce split: if_splits)+
next
  case (13 ts)
  from "13.prems" obtain w r1 where p: "parse_value ts = Some (w, r1)" "r1 \<noteq> []"
    by (auto simp: parse_elems.simps [of ts] split: option.splits if_splits)
  have l: "length r1 < length ts" using p(1) by (rule "13.IH"(1))
  show ?case
  proof (cases "hd r1 = RBrack")
    case True
    then have "r = tl r1" using "13.prems" p by (simp add: parse_elems.simps [of ts])
    then show ?thesis using l by simp
  next
    case False
    then obtain ws where "parse_elems (tl r1) = Some (ws, r)" "hd r1 = Comma"
      "length (tl r1) < length ts"
      using "13.prems" p by (auto simp: parse_elems.simps [of ts] split: if_splits)
    then have "length r < length (tl r1)"
      using "13.IH"(2) [OF p(1) refl p(2) False] by blast
    then show ?thesis using l by simp
  qed
next
  case (14 ts)
  from "14.prems" obtain k ts' where ts: "ts = TString k # Colon # ts'"
    by (auto simp: parse_members.simps [of ts] split: list.splits token.splits)
  have eq: "parse_members ts =
      (case parse_value ts' of
         None \<Rightarrow> None
       | Some (v, r) \<Rightarrow>
           if r = [] then None
           else if hd r = RBrace then Some ([(k, v)], tl r)
           else if hd r = Comma \<and> length (tl r) < length ts then
             map_option (apfst ((#) (k, v))) (parse_members (tl r))
           else None)"
    by (subst parse_members.simps) (simp add: ts)
  from "14.prems" obtain w r1 where p: "parse_value ts' = Some (w, r1)" "r1 \<noteq> []"
    by (auto simp: eq split: option.splits if_splits)
  have l: "length r1 < length ts'" using ts p(1) "14.IH"(1) by blast
  show ?case
  proof (cases "hd r1 = RBrace")
    case True
    then have "r = tl r1" using "14.prems" p by (simp add: eq)
    then show ?thesis using l ts by simp
  next
    case False
    then obtain ws where "parse_members (tl r1) = Some (ws, r)" "hd r1 = Comma"
      "length (tl r1) < length ts"
      using "14.prems" p by (auto simp: eq split: if_splits)
    then have "length r < length (tl r1)"
      using "14.IH"(2) [of "TString k" "Colon # ts'" k Colon ts' "(w, r1)" w r1 ws r] ts p False
      by simp
    then show ?thesis using l ts by simp
  qed
qed simp_all

lemma parse_elems_step:
  "parse_elems ts =
     (case parse_value ts of
        None \<Rightarrow> None
      | Some (v, r) \<Rightarrow>
          if r = [] then None
          else if hd r = RBrack then Some ([v], tl r)
          else if hd r = Comma then map_option (apfst ((#) v)) (parse_elems (tl r))
          else None)"
proof (cases "parse_value ts")
  case None
  then show ?thesis by (simp add: parse_elems.simps [of ts])
next
  case (Some p)
  obtain v r where p: "p = (v, r)" by (cases p)
  have "length (tl r) < length ts"
    using parse_consumes(1) [of ts v r] Some p by simp
  then show ?thesis using Some p by (simp add: parse_elems.simps [of ts])
qed

lemma parse_members_step:
  "parse_members (TString k # Colon # ts) =
     (case parse_value ts of
        None \<Rightarrow> None
      | Some (v, r) \<Rightarrow>
          if r = [] then None
          else if hd r = RBrace then Some ([(k, v)], tl r)
          else if hd r = Comma then map_option (apfst ((#) (k, v))) (parse_members (tl r))
          else None)"
proof (cases "parse_value ts")
  case None
  then show ?thesis by (simp add: parse_members.simps [of "TString k # Colon # ts"])
next
  case (Some p)
  obtain v r where p: "p = (v, r)" by (cases p)
  have "length (tl r) < length (TString k # Colon # ts)"
    using parse_consumes(1) [of ts v r] Some p by simp
  then show ?thesis
    using Some p by (simp add: parse_members.simps [of "TString k # Colon # ts"])
qed

text \<open>Some texts that \<open>JSON.parse\<close> rejects, and some it accepts.\<close>

lemma JSON_parse_rejects:
  "list_all (\<lambda>text. JSON_parse text = None)
     ['''',
      ''[1,]'',
      (''{'' @ [CHR 0x22] @ ''a'' @ [CHR 0x22] @ '':1,}''),
      ''01'',
      ''1.'',
      ''.5'',
      ''+1'',
      ''1e'',
      ''-'',
      ''nul'',
      ''truefalse'',
      (''{'' @ [CHR 0x22] @ ''a'' @ [CHR 0x22] @ '' 1}''),
      ''{a:1}'',
      (''['' @ [CHR 0x27] @ ''a'' @ [CHR 0x27] @ '']''),
      ([CHR 0x22] @ ''a'' @ [CHR 0x0A] @ ''b'' @ [CHR 0x22]),
      ([CHR 0x22] @ [CHR 0x5C] @ ''x'' @ [CHR 0x22]),
      ([CHR 0x22] @ [CHR 0x5C] @ ''u12g4'' @ [CHR 0x22]),
      ''[1 2]'',
      ''{} {}'',
      ([CHR 0x22] @ ''abc'')]"
  by code_simp

lemma JSON_parse_accepts:
  "JSON_parse ''{}'' = Some (JObj [])"
  "JSON_parse '' [ ] '' = Some (JArr [])"
  "JSON_parse ''-0.5e+3'' = Some (JNum ''-0.5e+3'')"
  "JSON_parse (''[1,{'' @ [CHR 0x22] @ ''a'' @ [CHR 0x22] @ '':null}]'') = Some (JArr [JNum ''1'', JObj [(''a'', JNull)]])"
  "JSON_parse ([CHR 0x22] @ [CHR 0x5C] @ ''u00e9'' @ [CHR 0x5C] @ ''n'' @ [CHR 0x22]) = Some (JStr (BSL # ''u00e9'' @ BSL # ''n''))"
  by code_simp+

subsection \<open>Counting\<close>

text \<open>
  Up to \<open>2 ^ 53\<close> adding one is exact; at \<open>2 ^ 53\<close> the sum is rounded back to \<open>2 ^ 53\<close>. A count
  up to there is read back from its decimal literal.
\<close>

lemma exponent_small: "n < 9007199254740992 \<Longrightarrow> exponent n = 0"
  by (subst exponent.simps) simp

lemma exponent_next:
  "9007199254740992 \<le> n \<Longrightarrow> n < 18014398509481984 \<Longrightarrow> exponent n = 1"
  by (subst exponent.simps) (simp add: exponent_small)

lemma nearest_small: "n < 9007199254740992 \<Longrightarrow> nearest n = n"
  by (simp add: nearest_def exponent_small)

lemma nearest_limit: "nearest 9007199254740992 = 9007199254740992"
  by (simp add: nearest_def exponent_next)

lemma nearest_above: "nearest 9007199254740993 = 9007199254740992"
  by (simp add: nearest_def exponent_next)

lemma plus_one_below: "n < max_count \<Longrightarrow> plus_one n = n + 1"
proof -
  assume "n < max_count"
  then have "n + 1 < 9007199254740992 \<or> n + 1 = 9007199254740992"
    unfolding max_count_def by arith
  then show ?thesis
    unfolding plus_one_def using nearest_small [of "n + 1"] nearest_limit by auto
qed

lemma plus_one_limit: "plus_one max_count = max_count"
  using nearest_above by (simp add: plus_one_def max_count_def)

lemma plus_one_bounded: "n \<le> max_count \<Longrightarrow> plus_one n \<le> max_count"
  using plus_one_below [of n] plus_one_limit by (cases "n = max_count") auto

lemma plus_one_examples:
  "plus_one 0 = 1" "plus_one 9007199254740991 = 9007199254740992"
  "plus_one 9007199254740992 = 9007199254740992"
  "plus_one 9007199254740994 = 9007199254740996"
  "plus_one 9007199254740996 = 9007199254740996"
  by (simp_all add: plus_one_def nearest_def exponent_next exponent_small)

lemma plain_number_show_nat: "n \<le> max_count \<Longrightarrow> plain_number (show_nat n) = Some n"
  by (simp add: plain_number_def read_nat_show_nat)

lemma plain_number_cases:
  "plain_number t = Some n \<Longrightarrow> t = show_nat n \<and> n \<le> max_count \<and> read_nat t = Some n"
  by (auto simp: plain_number_def split: option.splits if_splits)

subsection \<open>Key order and assignment\<close>

text \<open>
  Assignment keeps an object proper and changes the one key; a new key that precedes none
  of the keys goes to the end.
\<close>

lemma precedes_trans: "precedes a b \<Longrightarrow> precedes b c \<Longrightarrow> precedes a c"
  by (auto simp: precedes_def split: option.splits)

lemma precedes_asym: "precedes a b \<Longrightarrow> \<not> precedes b a"
  by (auto simp: precedes_def split: option.splits)

lemma keys_insert_key: "fst ` set (insert_key k v kvs) = insert k (fst ` set kvs)"
proof (induction kvs)
  case Nil
  show ?case by simp
next
  case (Cons a kvs)
  obtain k' v' where "a = (k', v')" by (cases a)
  then show ?case using Cons.IH by (simp add: insert_commute)
qed

lemma keys_update_key: "map fst (update_key k v kvs) = map fst kvs"
  by (induction kvs) auto

lemma distinct_insert_key:
  "k \<notin> fst ` set kvs \<Longrightarrow> distinct (map fst kvs) \<Longrightarrow> distinct (map fst (insert_key k v kvs))"
proof (induction kvs)
  case Nil
  show ?case by simp
next
  case (Cons a kvs)
  obtain k' v' where a: "a = (k', v')" by (cases a)
  have "k \<noteq> k'" "k \<notin> fst ` set kvs" "k' \<notin> fst ` set kvs" "distinct (map fst kvs)"
    using Cons.prems a by auto
  then show ?case
    using a Cons.IH by (simp add: keys_insert_key)
qed

lemma key_order_insert_key:
  "key_order (map fst kvs) \<Longrightarrow> key_order (map fst (insert_key k v kvs))"
proof (induction kvs)
  case Nil
  show ?case by (simp add: key_order_def)
next
  case (Cons a kvs)
  obtain k' v' where a: "a = (k', v')" by (cases a)
  have tail: "key_order (map fst kvs)" and hd: "\<forall>x \<in> fst ` set kvs. \<not> precedes x k'"
    using Cons.prems a by (auto simp: key_order_def)
  show ?case
  proof (cases "precedes k k'")
    case True
    have "\<not> precedes k' k" using True by (rule precedes_asym)
    moreover have "\<forall>x \<in> fst ` set kvs. \<not> precedes x k"
      using hd True precedes_trans by blast
    ultimately show ?thesis
      using True a Cons.prems by (simp add: key_order_def)
  next
    case False
    have "\<forall>x \<in> fst ` set (insert_key k v kvs). \<not> precedes x k'"
      using hd False by (simp add: keys_insert_key)
    then show ?thesis
      using False a Cons.IH [OF tail] by (simp add: key_order_def)
  qed
qed

lemma proper_object_obj_set: "proper_object kvs \<Longrightarrow> proper_object (obj_set kvs k v)"
  by (simp add: proper_object_def obj_set_def keys_update_key distinct_insert_key
      key_order_insert_key)

lemma proper_object_empty: "proper_object []"
  by (simp add: proper_object_def key_order_def)

lemma insert_key_at_end:
  "\<forall>k' \<in> set (map fst kvs). \<not> precedes k k' \<Longrightarrow> insert_key k v kvs = kvs @ [(k, v)]"
  by (induction kvs) auto

lemma obj_set_at_end:
  assumes "proper_object (kvs @ [(k, v)])"
  shows "obj_set kvs k v = kvs @ [(k, v)]"
proof -
  have "k \<notin> set (map fst kvs)"
    using assms by (auto simp: proper_object_def)
  moreover have "\<forall>k' \<in> set (map fst kvs). \<not> precedes k k'"
    using assms by (auto simp: proper_object_def key_order_def sorted_wrt_append)
  ultimately show ?thesis
    by (simp add: obj_set_def insert_key_at_end)
qed

lemma proper_object_prefix: "proper_object (kvs @ kvs') \<Longrightarrow> proper_object kvs"
  by (auto simp: proper_object_def key_order_def sorted_wrt_append)

lemma map_of_update_key:
  "k \<in> fst ` set kvs \<Longrightarrow> map_of (update_key k v kvs) = (map_of kvs)(k \<mapsto> v)"
proof (induction kvs)
  case Nil
  then show ?case by simp
next
  case (Cons a kvs)
  obtain k' v' where a: "a = (k', v')" by (cases a)
  show ?case
  proof (cases "k = k'")
    case True
    then show ?thesis using a by (simp add: fun_eq_iff)
  next
    case False
    then have "k \<in> fst ` set kvs" using Cons.prems a by auto
    then show ?thesis using False a Cons.IH by (simp add: fun_eq_iff)
  qed
qed

lemma map_of_insert_key:
  "k \<notin> fst ` set kvs \<Longrightarrow> map_of (insert_key k v kvs) = (map_of kvs)(k \<mapsto> v)"
proof (induction kvs)
  case Nil
  then show ?case by simp
next
  case (Cons a kvs)
  obtain k' v' where a: "a = (k', v')" by (cases a)
  have "k \<noteq> k'" "k \<notin> fst ` set kvs" using Cons.prems a by auto
  then show ?case using a Cons.IH by (simp add: fun_eq_iff)
qed

lemma map_of_obj_set: "map_of (obj_set kvs k v) = (map_of kvs)(k \<mapsto> v)"
  by (simp add: obj_set_def map_of_update_key map_of_insert_key)


lemma key_present: "k \<in> set (map fst db) \<Longrightarrow> \<exists>r. map_of db k = Some r"
  by (induction db) auto

lemma key_absent: "k \<notin> set (map fst db) \<Longrightarrow> map_of db k = None"
  by (simp add: map_of_eq_None_iff)





lemma set_update_key: "set (update_key k v kvs) \<subseteq> insert (k, v) (set kvs)"
proof (induction kvs)
  case Nil
  show ?case by simp
next
  case (Cons a kvs)
  obtain k' v' where "a = (k', v')" by (cases a)
  then show ?case using Cons.IH by (cases "k = k'") auto
qed

lemma set_insert_key: "set (insert_key k v kvs) = insert (k, v) (set kvs)"
proof (induction kvs)
  case Nil
  show ?case by simp
next
  case (Cons a kvs)
  obtain k' v' where "a = (k', v')" by (cases a)
  then show ?case using Cons.IH by (cases "precedes k k'") auto
qed

subsection \<open>The typed view of a printed store\<close>

text \<open>
  The JSON value of a plain value, a visit, a representable record and a well-formed store
  has the value, the visit, the record and the store as its typed view, and consists of
  printed literals. What the typed view reads is plain, representable and well formed.
\<close>

lemma plain_members_iff: "plain_members ms \<longleftrightarrow> (\<forall>(k, v) \<in> set ms. plain v)"
  by (induction ms) auto

lemma plain_list_iff: "plain_list vs \<longleftrightarrow> (\<forall>v \<in> set vs. plain v)"
  by (induction vs) auto

lemma digits_not_words:
  "plain_number t = Some n \<Longrightarrow> t \<notin> set [''Infinity'', ''-Infinity'', ''NaN'']"
proof -
  assume "plain_number t = Some n"
  then have "read_nat t = Some n" by (rule plain_number_cases [THEN conjunct2, THEN conjunct2])
  then have "t \<noteq> [] \<and> list_all is_digit t"
    by (auto simp: read_nat_def split: if_splits)
  then have "is_digit (hd t)" by (cases t) auto
  moreover have "\<not> is_digit (CHR ''I'')" "\<not> is_digit (CHR ''-'')" "\<not> is_digit (CHR ''N'')"
    by code_simp+
  ultimately show ?thesis by auto
qed

lemma json_val_json:
  "plain v \<Longrightarrow> json_val (val_json v) = Some v"
  "plain_list vs \<Longrightarrow> json_vals (vals_json vs) = Some vs"
  "plain_members ms \<Longrightarrow>
     (\<forall>acc. proper_object (acc @ ms) \<longrightarrow> json_members (members_json ms) acc = Some (acc @ ms))"
proof (induction v and vs and ms rule: val_json_vals_json_members_json.induct)
  case (3 t)
  then obtain n where n: "plain_number t = Some n" by auto
  then show ?case using digits_not_words [OF n] by simp
next
  case (4 s)
  show ?case by (simp add: unescape_quote_body)
next
  case (6 ms)
  then have "json_members (members_json ms) [] = Some ms" by simp
  then show ?case by simp
next
  case (10 k v ms)
  show ?case
  proof (intro allI impI)
    fix acc
    assume p: "proper_object (acc @ (k, v) # ms)"
    then have "proper_object ((acc @ [(k, v)]) @ ms)" by simp
    moreover from this have "obj_set acc k v = acc @ [(k, v)]"
      by (intro obj_set_at_end) (rule proper_object_prefix)
    ultimately show "json_members (members_json ((k, v) # ms)) acc = Some (acc @ (k, v) # ms)"
      using 10 by (simp add: unescape_quote_body)
  qed
qed simp_all

lemma printed_val_json:
  "plain v \<Longrightarrow> printed (val_json v)"
  "plain_list vs \<Longrightarrow> printed_elems (vals_json vs)"
  "plain_members ms \<Longrightarrow> printed_members (members_json ms)"
proof (induction v and vs and ms rule: val_json_vals_json_members_json.induct)
  case (3 t)
  then obtain n where n: "plain_number t = Some n" by auto
  then show ?case
    using digits_not_words [OF n] plain_number_cases [OF n] by (simp add: read_nat_show_nat)
qed (simp_all add: unescape_quote_body)

lemma plain_obj_set:
  assumes "plain_members acc" "plain v"
  shows "plain_members (obj_set acc k v)"
proof -
  have "set (obj_set acc k v) \<subseteq> insert (k, v) (set acc)"
    using set_update_key [of k v acc] by (simp add: obj_set_def set_insert_key)
  then show ?thesis
    using assms by (auto simp: plain_members_iff)
qed

lemma plain_json_val:
  "json_val j = Some v \<Longrightarrow> plain v"
  "json_vals js = Some vs \<Longrightarrow> plain_list vs"
  "json_members ms acc = Some r \<Longrightarrow> proper_object acc \<Longrightarrow> plain_members acc
     \<Longrightarrow> proper_object r \<and> plain_members r"
proof (induction j and js and ms acc arbitrary: v and vs and r
    rule: json_val_json_vals_json_members.induct)
  case (6 ms)
  then obtain r where "json_members ms [] = Some r" "v = VObj r" by auto
  then show ?case using 6(1) [of r] by (simp add: proper_object_empty)
next
  case (8 j js)
  then show ?case by (auto split: option.splits)
next
  case (10 k j ms acc)
  from 10(3) obtain key x where
    k: "unescape k = Some key" "json_val j = Some x"
    and m: "json_members ms (obj_set acc key x) = Some r"
    by (auto split: option.splits)
  have "plain x" using 10(1) k by auto
  then have "plain_members (obj_set acc key x)"
    using 10(5) by (intro plain_obj_set)
  moreover have "proper_object (obj_set acc key x)"
    using 10(4) by (rule proper_object_obj_set)
  ultimately show ?case using 10(2) k m by auto
qed (auto split: option.splits)

lemma unescape_keys:
  "map unescape record_keys = map Some record_keys"
  "map unescape [''ip'', ''timestamp''] = map Some [''ip'', ''timestamp'']"
  by code_simp+

lemma quote_keys:
  "map quote_body record_keys = record_keys"
  "map quote_body [''ip'', ''timestamp''] = [''ip'', ''timestamp'']"
  by code_simp+

lemma as_visit_json: "as_visit (visit_json v) = Some v"
  using unescape_keys(2)
  by (simp add: as_visit_def visit_json_def member_values_def str_of_def unescape_quote_body)

lemma those_visits_json: "those_visits (map visit_json h) = Some h"
  by (induction h) (simp_all add: as_visit_json)

lemma member_values_zip:
  assumes "length ks = length vs" "map unescape ks = map Some ks"
  shows "member_values ks (JObj (zip ks vs)) = Some vs"
proof -
  have "map (unescape \<circ> fst) (zip ks vs) = map unescape (map fst (zip ks vs))"
    by simp
  also have "\<dots> = map Some ks"
    using assms by (simp only: map_fst_zip)
  finally show ?thesis
    using assms(1) by (simp add: member_values_def map_snd_zip del: map_map)
qed

lemma as_record_json:
  assumes "representable r"
  shows "as_record (record_json r) = Some r"
proof -
  have "member_values record_keys (record_json r) =
      Some [val_json (name r), val_json (web_target r),
        JStr (quote_body (web_url r)), JStr (quote_body (created_at r)),
        JStr (quote_body (created_by_ip r)), JNum (show_nat (visits r)),
        JArr (map visit_json (visit_history r))]"
    unfolding record_json_def
    by (rule member_values_zip) (simp_all add: unescape_keys(1), simp add: record_keys_def)
  moreover have "json_val (val_json (name r)) = Some (name r)"
    "json_val (val_json (web_target r)) = Some (web_target r)"
    "plain_number (show_nat (visits r)) = Some (visits r)"
    using assms by (simp_all add: representable_def json_val_json(1) plain_number_show_nat)
  ultimately show ?thesis
    by (simp add: as_record_def str_of_def nat_of_def history_of_def unescape_quote_body
        those_visits_json)
qed

lemma representable_as_record:
  assumes "as_record j = Some r"
  shows "representable r"
proof -
  from assms obtain vs a b n where
    "json_val (vs ! 0) = Some a" "json_val (vs ! 1) = Some b" "nat_of (vs ! 5) = Some n"
    "name r = a" "web_target r = b" "visits r = n"
    by (auto simp: as_record_def split: option.splits)
  moreover from this obtain t where "plain_number t = Some n"
    by (auto simp: nat_of_def split: json.splits)
  ultimately show ?thesis
    using plain_json_val(1) plain_number_cases by (auto simp: representable_def)
qed

lemma printed_visit: "printed (visit_json v)"
  using quote_keys(2) unescape_keys(2) by (simp add: visit_json_def unescape_quote_body)

lemma printed_quoted:
  "(case unescape (quote_body t) of None \<Rightarrow> False | Some u \<Rightarrow> quote_body t = quote_body u)"
  by (simp add: unescape_quote_body)

lemma printed_history: "printed_elems (map visit_json h)"
  by (induction h) (simp_all add: printed_visit)

lemma printed_key:
  assumes "unescape k = Some k" "quote_body k = k"
  shows "(case unescape k of None \<Rightarrow> False | Some t \<Rightarrow> k = quote_body t)"
  using assms by simp

lemma record_keys_plain: "\<forall>k \<in> set record_keys. unescape k = Some k \<and> quote_body k = k"
  by code_simp

lemma printed_members_zip:
  assumes "length ks = length vs"
    "\<forall>k \<in> set ks. unescape k = Some k \<and> quote_body k = k" "\<forall>v \<in> set vs. printed v"
  shows "printed_members (zip ks vs)"
  using assms by (induction ks vs rule: list_induct2) simp_all

lemma printed_record:
  assumes "representable r"
  shows "printed (record_json r)"
proof -
  have "printed (val_json (name r))" "printed (val_json (web_target r))"
    "visits r \<le> max_count"
    using assms by (simp_all add: representable_def printed_val_json(1))
  then have "printed_members (zip record_keys
       [val_json (name r), val_json (web_target r),
        JStr (quote_body (web_url r)), JStr (quote_body (created_at r)),
        JStr (quote_body (created_by_ip r)), JNum (show_nat (visits r)),
        JArr (map visit_json (visit_history r))])"
    by (intro printed_members_zip)
       (simp_all add: record_keys_plain printed_quoted read_nat_show_nat printed_history,
        simp add: record_keys_def)
  then show ?thesis by (simp add: record_json_def)
qed

lemma printed_db:
  assumes "list_all (\<lambda>(k, r). representable r) db"
  shows "printed (db_json db)"
proof -
  have "printed_members (map (\<lambda>(k, r). (quote_body k, record_json r)) db)"
    using assms by (induction db) (auto simp: printed_quoted printed_record)
  then show ?thesis by (simp add: db_json_def)
qed

lemma JSON_parse_stringify:
  "well_formed db \<Longrightarrow> JSON_parse (JSON_stringify db) = Some (db_json db)"
  unfolding JSON_stringify_def by (rule JSON_parse_print) (simp add: printed_db well_formed_def)

lemma JSON_stringify_nonempty: "JSON_stringify db \<noteq> []"
  by (simp add: JSON_stringify_def db_json_def)

lemma as_members_json:
  "proper_object (acc @ db) \<Longrightarrow> list_all (\<lambda>(k, r). representable r) db \<Longrightarrow>
   as_members (map (\<lambda>(k, r). (quote_body k, record_json r)) db) acc = Some (acc @ db)"
proof (induction db arbitrary: acc)
  case Nil
  show ?case by simp
next
  case (Cons kr db)
  obtain k r where kr: "kr = (k, r)" by (cases kr)
  have wf: "proper_object ((acc @ [(k, r)]) @ db)" using Cons.prems(1) kr by simp
  then have "obj_set acc k r = acc @ [(k, r)]"
    by (intro obj_set_at_end) (rule proper_object_prefix)
  moreover have "representable r" "list_all (\<lambda>(k, r). representable r) db"
    using Cons.prems(2) kr by simp_all
  ultimately show ?case
    using Cons.IH [OF wf] kr by (simp add: unescape_quote_body as_record_json)
qed

lemma as_store_json: "well_formed db \<Longrightarrow> as_store (db_json db) = Some db"
  using as_members_json [of "[]" db] by (simp add: as_store_def db_json_def well_formed_def)

lemma well_formed_obj_set:
  assumes "well_formed db" "representable r"
  shows "well_formed (obj_set db k r)"
proof -
  have "set (obj_set db k r) \<subseteq> insert (k, r) (set db)"
    using set_update_key [of k r db] by (simp add: obj_set_def set_insert_key)
  then show ?thesis
    using assms by (auto simp: well_formed_def proper_object_obj_set list_all_iff)
qed

lemma well_formed_empty: "well_formed []"
  by (simp add: well_formed_def proper_object_empty)

lemma well_formed_as_members:
  "as_members ms acc = Some db \<Longrightarrow> well_formed acc \<Longrightarrow> well_formed db"
proof (induction ms arbitrary: acc)
  case Nil
  then show ?case by simp
next
  case (Cons m ms)
  obtain k j where m: "m = (k, j)" by (cases m)
  from Cons.prems(1) m obtain key r where
    r: "as_record j = Some r" and "as_members ms (obj_set acc key r) = Some db"
    by (auto split: option.splits)
  moreover have "well_formed (obj_set acc key r)"
    using Cons.prems(2) r by (intro well_formed_obj_set representable_as_record)
  ultimately show ?case by (intro Cons.IH)
qed

lemma well_formed_as_store: "as_store j = Some db \<Longrightarrow> well_formed db"
  using well_formed_as_members [of _ "[]" db] well_formed_empty
  by (cases j) (auto simp: as_store_def)

subsection \<open>The file and the store it holds\<close>

text \<open>What \<open>readDatabase\<close> does to the file, and the handlers on a file that holds a store.\<close>

lemma statuses:
  "status missing_field = 400" "status invalid_url = 400" "status invalid_name = 400"
  "status name_taken = 400" "status not_found = 404" "status server_error = 500"
  by (simp_all add: missing_field_def invalid_url_def invalid_name_def name_taken_def
      not_found_def server_error_def danger_def)

lemma as_store_empty: "as_store (JObj []) = Some []"
  by (simp add: as_store_def)

lemma opened_cases:
  "opened s = s \<or>
   (content s = None \<and> \<not> read_fails s \<and> \<not> write_fails s \<and> stored s = Some []
      \<and> opened s = s\<lparr>content := Some ''{}''\<rparr>)"
  by (auto simp: opened_def stored_def readDatabase_def readFile_def writeFile_def as_store_empty
      split: option.splits sum.splits)

lemma opened_nonempty: "stored s = Some db \<Longrightarrow> db \<noteq> [] \<Longrightarrow> opened s = s"
  using opened_cases [of s] by auto

lemma readDatabase_stored:
  "stored s = Some db \<Longrightarrow> \<exists>j. readDatabase s = (Inr j, opened s) \<and> as_store j = Some db"
  by (cases "readDatabase s") (auto simp: stored_def opened_def split: sum.splits)

lemma readDatabase_throws:
  "fst (readDatabase s) = Inl e \<Longrightarrow> readDatabase s = (Inl e, s)"
  by (auto simp: readDatabase_def split: sum.splits option.splits if_splits)

lemma get_own: "map_of db k = Some r \<Longrightarrow> get db k = Own r"
  by (simp add: get_def)

lemma valid_url_string: "valid_url isValidUrl (VStr u) = isValidUrl u"
  by (simp add: valid_url_def)

lemma body_field_simps: "body_field None = None" "body_field (Some x) = Some (VStr x)"
  by (simp_all add: body_field_def)

lemma post_shorten_loaded:
  assumes "stored s = Some db" "ToBoolean u" "ToBoolean n" "valid_url isValidUrl u"
    "ToString n = Inr key" "name_pattern key"
  shows "post_shorten isValidUrl req (Some u) (Some n) s =
     (if truthy (get db key) then Done name_taken (opened s)
      else case writeDatabase (obj_set db key (new_record req u n key)) (opened s) of
             Inl e \<Rightarrow> Done server_error (opened s)
           | Inr s2 \<Rightarrow>
               Done (Json 200 True (Some ''URL pendek berhasil dibuat!'') (Some ''success'')
                       (data_of (get (obj_set db key (new_record req u n key)) key))) s2)"
proof -
  from assms(1) obtain j where "readDatabase s = (Inr j, opened s)" "as_store j = Some db"
    using readDatabase_stored by blast
  then show ?thesis
    using assms(2-6) by (simp add: post_shorten_def Let_def)
qed

lemma get_name_loaded:
  assumes "stored s = Some db"
  shows "get_name req n s =
     (if \<not> truthy (get db n) then Done not_found (opened s)
      else case record_visit req (get db n) of
             Inl e \<Rightarrow> Done server_error (opened s)
           | Inr urlData \<Rightarrow>
               (case writeDatabase (obj_set db n urlData) (opened s) of
                  Inl e \<Rightarrow> Done server_error (opened s)
                | Inr s2 \<Rightarrow> Done (Redirect 302 (web_target urlData)) s2))"
proof -
  from assms(1) obtain j where "readDatabase s = (Inr j, opened s)" "as_store j = Some db"
    using readDatabase_stored by blast
  then show ?thesis
    by (simp add: get_name_def)
qed

lemma get_stats_loaded:
  assumes "stored s = Some db"
  shows "get_stats n s =
     (if \<not> truthy (get db n) then Done not_found (opened s)
      else Done (Json 200 True None None (data_of (get db n))) (opened s))"
proof -
  from assms(1) obtain j where "readDatabase s = (Inr j, opened s)" "as_store j = Some db"
    using readDatabase_stored by blast
  then show ?thesis
    by (simp add: get_stats_def)
qed

lemma stored_no_file: "stored no_file = Some []"
  by code_simp

lemma opened_existing: "content s \<noteq> None \<Longrightarrow> opened s = s"
  using opened_cases [of s] by auto

lemma opened_missing:
  "stored s = Some db \<Longrightarrow> content s = None \<Longrightarrow> opened s = s\<lparr>content := Some ''{}''\<rparr>"
  by (auto simp: opened_def stored_def readDatabase_def readFile_def writeFile_def
      split: option.splits sum.splits if_splits)

text \<open>
  Every store read from a file is well formed, and a well-formed store written to the file
  is the store the file holds afterwards.
\<close>

lemma well_formed_stored: "stored s = Some db \<Longrightarrow> well_formed db"
proof -
  assume "stored s = Some db"
  then obtain j where "as_store j = Some db" using readDatabase_stored by blast
  then show ?thesis by (rule well_formed_as_store)
qed

lemma get_obj_set_same: "get (obj_set db k r) k = Own r"
  by (simp add: get_def map_of_obj_set)

lemma get_obj_set_other: "k' \<noteq> k \<Longrightarrow> get (obj_set db k r) k' = get db k'"
  by (simp add: get_def map_of_obj_set)

lemma readDatabase_written:
  assumes "\<not> read_fails s" "well_formed db"
  shows "readDatabase (s\<lparr>content := Some (JSON_stringify db)\<rparr>)
           = (Inr (db_json db), s\<lparr>content := Some (JSON_stringify db)\<rparr>)"
  using assms
  by (simp add: readDatabase_def readFile_def JSON_stringify_nonempty JSON_parse_stringify)

lemma writeDatabase_ok:
  "\<not> write_fails s \<Longrightarrow> writeDatabase db s = Inr (s\<lparr>content := Some (JSON_stringify db)\<rparr>)"
  by (simp add: writeDatabase_def writeFile_def)

lemma writeDatabase_fails: "write_fails s \<Longrightarrow> writeDatabase db s = Inl (FsError EOTHER)"
  by (simp add: writeDatabase_def writeFile_def)

lemma stored_written:
  assumes "\<not> read_fails s" "well_formed db"
  shows "stored (s\<lparr>content := Some (JSON_stringify db)\<rparr>) = Some db"
    "opened (s\<lparr>content := Some (JSON_stringify db)\<rparr>) = s\<lparr>content := Some (JSON_stringify db)\<rparr>"
  using assms by (simp_all add: stored_def opened_def readDatabase_written as_store_json)

lemma well_formed_sample: "well_formed [(''a'', sample_record)]"
  by (simp add: well_formed_def proper_object_def key_order_def representable_def
      sample_record_def max_count_def)

lemma sample_text_parsed: "JSON_parse sample_text = Some (db_json [(''a'', sample_record)])"
  by code_simp

lemma stored_sample: "stored sample_fs = Some [(''a'', sample_record)]"
proof -
  have "sample_text \<noteq> []" by (simp add: sample_text_def)
  then have "readDatabase sample_fs = (Inr (db_json [(''a'', sample_record)]), sample_fs)"
    by (simp add: readDatabase_def readFile_def sample_fs_def sample_text_parsed)
  then show ?thesis
    using well_formed_sample by (simp add: stored_def as_store_json)
qed

lemma stored_readable: "stored s = Some db \<Longrightarrow> \<not> read_fails s"
  by (auto simp: stored_def readDatabase_def readFile_def split: if_splits)

lemma opened_flags: "read_fails (opened s) = read_fails s" "write_fails (opened s) = write_fails s"
  using opened_cases [of s] by auto

lemma stored_opened: "stored s = Some db \<Longrightarrow> stored (opened s) = Some db"
proof -
  assume a: "stored s = Some db"
  show ?thesis
  proof (cases "opened s = s")
    case True
    then show ?thesis using a by simp
  next
    case False
    then have o: "opened s = s\<lparr>content := Some ''{}''\<rparr>" "stored s = Some []" "\<not> read_fails s"
      using opened_cases [of s] by auto
    have "JSON_parse ''{}'' = Some (JObj [])" by code_simp
    then have "stored (s\<lparr>content := Some ''{}''\<rparr>) = Some []"
      using o(3) by (simp add: stored_def readDatabase_def readFile_def as_store_empty)
    then show ?thesis using o a by simp
  qed
qed

subsection \<open>The handlers on a store\<close>

text \<open>Resolving a stored name, once and in sequence, and creating a name that is free.\<close>

lemma representable_visit:
  assumes "representable r"
  shows "representable (r\<lparr>visits := plus_one (visits r), visit_history := h\<rparr>)"
  using assms by (simp add: representable_def plus_one_bounded)

lemma representable_stored:
  assumes "stored s = Some db" "map_of db n = Some r"
  shows "representable r"
proof -
  have "well_formed db" using assms(1) by (rule well_formed_stored)
  moreover have "(n, r) \<in> set db" using assms(2) by (rule map_of_SomeD)
  ultimately show ?thesis by (auto simp: well_formed_def list_all_iff)
qed

lemma get_name_own:
  assumes "stored s = Some db" "map_of db n = Some r" "\<not> write_fails s"
  shows "get_name req n s =
           Done (Redirect 302 (web_target r))
             (s\<lparr>content := Some (JSON_stringify (obj_set db n
                (r\<lparr>visits := plus_one (visits r),
                   visit_history := visit_history r @ [visit_of req]\<rparr>)))\<rparr>)"
proof -
  have g: "get db n = Own r" using assms(2) by (rule get_own)
  have "db \<noteq> []" using assms(2) by auto
  then have o: "opened s = s" using assms(1) by (rule opened_nonempty [rotated])
  show ?thesis
    using assms(1,3) g o
    by (simp add: get_name_loaded writeDatabase_ok visit_of_def)
qed

lemma stored_after_visit:
  assumes "stored s = Some db" "map_of db n = Some r"
  shows "stored (s\<lparr>content := Some (JSON_stringify (obj_set db n
            (r\<lparr>visits := plus_one (visits r), visit_history := h\<rparr>)))\<rparr>)
         = Some (obj_set db n (r\<lparr>visits := plus_one (visits r), visit_history := h\<rparr>))"
proof -
  have "representable r" using assms by (rule representable_stored)
  then have "well_formed (obj_set db n (r\<lparr>visits := plus_one (visits r), visit_history := h\<rparr>))"
    using assms(1) by (intro well_formed_obj_set well_formed_stored representable_visit)
  then show ?thesis
    using assms(1) by (intro stored_written stored_readable)
qed


text \<open>
  Creating, for values of any kind: when the fields are truthy, the URL is accepted, and the
  name converts to a string that matches the pattern and is neither a key of the store nor
  inherited, the record is stored under that string, with the values as they came.
\<close>

lemma create_fresh_name:
  assumes "stored s = Some db" "ToBoolean u" "ToBoolean n" "valid_url isValidUrl u"
    "ToString n = Inr key" "name_pattern key"
    "key \<notin> fst ` set db" "key \<notin> set Object_prototype" "\<not> write_fails s"
  shows "post_shorten isValidUrl req (Some u) (Some n) s =
           Done (Json 200 True (Some ''URL pendek berhasil dibuat!'') (Some ''success'')
                  (Some (Link (new_record req u n key))))
             ((opened s)\<lparr>content := Some (JSON_stringify (obj_set db key (new_record req u n key)))\<rparr>)"
    and "plain u \<Longrightarrow> plain n \<Longrightarrow>
         stored ((opened s)\<lparr>content := Some (JSON_stringify (obj_set db key (new_record req u n key)))\<rparr>)
           = Some (obj_set db key (new_record req u n key))"
    and "plain u \<Longrightarrow> plain n \<Longrightarrow>
         get_stats key ((opened s)\<lparr>content := Some (JSON_stringify (obj_set db key (new_record req u n key)))\<rparr>)
           = Done (Json 200 True None None (Some (Link (new_record req u n key))))
               ((opened s)\<lparr>content := Some (JSON_stringify (obj_set db key (new_record req u n key)))\<rparr>)"
proof -
  let ?db = "obj_set db key (new_record req u n key)"
  let ?s = "(opened s)\<lparr>content := Some (JSON_stringify ?db)\<rparr>"
  have g: "get db key = Undefined"
    using assms(7,8) by (simp add: get_def map_of_eq_None_iff [THEN iffD2])
  have w: "\<not> write_fails (opened s)" using assms(9) by (simp add: opened_flags)
  show "post_shorten isValidUrl req (Some u) (Some n) s =
           Done (Json 200 True (Some ''URL pendek berhasil dibuat!'') (Some ''success'')
                  (Some (Link (new_record req u n key)))) ?s"
    using g w by (simp add: post_shorten_loaded [OF assms(1-6)] writeDatabase_ok get_obj_set_same)
  have st: "stored ?s = Some ?db" and op: "opened ?s = ?s" if p: "plain u" "plain n"
  proof -
    have "\<not> read_fails (opened s)"
      using assms(1) by (simp add: opened_flags stored_readable)
    moreover have "representable (new_record req u n key)"
      using p by (simp add: representable_def new_record_def max_count_def)
    then have "well_formed ?db"
      using assms(1) by (intro well_formed_obj_set well_formed_stored)
    ultimately show "stored ?s = Some ?db" "opened ?s = ?s"
      by (rule stored_written)+
  qed
  show "plain u \<Longrightarrow> plain n \<Longrightarrow> stored ?s = Some ?db" by (rule st)
  show "plain u \<Longrightarrow> plain n \<Longrightarrow>
      get_stats key ?s = Done (Json 200 True None None (Some (Link (new_record req u n key)))) ?s"
    using st op by (simp add: get_stats_loaded get_obj_set_same)
qed

text \<open>
  Values that are not strings go through the same four rules, applied to the strings they
  convert to; a value that is falsy counts as missing, and a name that cannot be converted
  is answered with the server error.
\<close>

lemma validation_order_converted:
  assumes "ToBoolean u" "ToBoolean n" "ToString u = Inr u'" "ToString n = Inr n'"
    "u' \<noteq> []" "n' \<noteq> []"
    "first_failure isValidUrl (keys_of s) (Some u') (Some n') = Some f"
  shows "post_shorten isValidUrl req (Some u) (Some n) s = Done (error_response f) s"
proof (cases "isValidUrl u' \<and> name_pattern n'")
  case False
  then show ?thesis
    using assms by (auto simp: first_failure_def field_def post_shorten_def valid_url_def)
next
  case True
  with assms have f: "f = Name_taken" and k: "n' \<in> set (keys_of s)"
    by (auto simp: first_failure_def field_def split: if_splits)
  from k obtain db where db: "stored s = Some db" "n' \<in> set (map fst db)"
    by (cases "stored s") (auto simp: keys_of_def)
  obtain r where "map_of db n' = Some r" using key_present [OF db(2)] by blast
  then have t: "truthy (get db n')" by (simp add: get_own)
  have "db \<noteq> []" using db(2) by auto
  then have o: "opened s = s" using db(1) by (rule opened_nonempty [rotated])
  have "post_shorten isValidUrl req (Some u) (Some n) s = Done name_taken s"
    using t o
    by (subst post_shorten_loaded [where key = n', OF db(1)])
       (simp_all add: valid_url_def True assms)
  then show ?thesis using f by simp
qed

lemma create_rejects_values:
  "post_shorten isValidUrl req (Some (VNum ''0'')) (Some (VStr ''a'')) s = Done missing_field s"
  "post_shorten isValidUrl req (Some (VStr ''x:y'')) (Some VNull) s = Done missing_field s"
  "post_shorten isValidUrl req (Some (VObj [(''toString'', VNull)])) (Some (VStr ''a'')) s
     = Done invalid_url s"
  "isValidUrl ''x:y'' \<Longrightarrow>
   post_shorten isValidUrl req (Some (VStr ''x:y'')) (Some (VObj [(''toString'', VNull)])) s
     = Done server_error s"
  "isValidUrl ''x:y'' \<Longrightarrow>
   post_shorten isValidUrl req (Some (VStr ''x:y'')) (Some (VObj [])) s = Done invalid_name s"
  "isValidUrl ''x:y'' \<Longrightarrow>
   post_shorten isValidUrl req (Some (VArr [VStr ''x:y''])) (Some (VArr [VStr ''a'', VStr ''b''])) s
     = Done invalid_name s"
proof -
  have p: "\<not> name_pattern ''[object Object]''" "\<not> name_pattern ''a,b''" by code_simp+
  show "post_shorten isValidUrl req (Some (VNum ''0'')) (Some (VStr ''a'')) s = Done missing_field s"
    "post_shorten isValidUrl req (Some (VStr ''x:y'')) (Some VNull) s = Done missing_field s"
    "post_shorten isValidUrl req (Some (VObj [(''toString'', VNull)])) (Some (VStr ''a'')) s
       = Done invalid_url s"
    by (simp_all add: post_shorten_def valid_url_def)
  assume "isValidUrl ''x:y''"
  then show
    "post_shorten isValidUrl req (Some (VStr ''x:y'')) (Some (VObj [(''toString'', VNull)])) s
       = Done server_error s"
    "post_shorten isValidUrl req (Some (VStr ''x:y'')) (Some (VObj [])) s = Done invalid_name s"
    "post_shorten isValidUrl req (Some (VArr [VStr ''x:y''])) (Some (VArr [VStr ''a'', VStr ''b''])) s
       = Done invalid_name s"
    using p by (simp_all add: post_shorten_def valid_url_def)
qed

lemma readDatabase_corrupt: "corrupt s \<Longrightarrow> \<exists>e. readDatabase s = (Inl e, s)"
  by (auto simp: corrupt_def readDatabase_def readFile_def split: option.splits)

subsection \<open>The invariant under assignment\<close>

text \<open>
  Resolving and the statistics keep the invariant of the store, and so does creating when
  the fields of the body are strings.
\<close>

lemma key_invariant_obj_set:
  assumes "key_invariant db" "name r = VStr k"
  shows "key_invariant (obj_set db k r)"
proof -
  have "set (obj_set db k r) \<subseteq> insert (k, r) (set db)"
    using set_update_key [of k r db] by (simp add: obj_set_def set_insert_key)
  then show ?thesis
    using assms by (auto simp: key_invariant_def list_all_iff)
qed

lemma key_invariant_lookup: "key_invariant db \<Longrightarrow> map_of db k = Some r \<Longrightarrow> name r = VStr k"
  by (auto simp: key_invariant_def list_all_iff dest: map_of_SomeD)

lemma invariant_opened: "invariant_holds s \<Longrightarrow> invariant_holds (opened s)"
  by (auto simp: invariant_holds_def stored_opened split: option.splits)

lemma invariant_written:
  assumes "stored s = Some db" "key_invariant db" "name r = VStr k" "representable r"
  shows "invariant_holds ((opened s)\<lparr>content := Some (JSON_stringify (obj_set db k r))\<rparr>)"
proof -
  have "\<not> read_fails (opened s)"
    using assms(1) by (simp add: opened_flags stored_readable)
  moreover have "well_formed (obj_set db k r)"
    using assms(1,4) by (intro well_formed_obj_set well_formed_stored)
  ultimately have "stored ((opened s)\<lparr>content := Some (JSON_stringify (obj_set db k r))\<rparr>)
      = Some (obj_set db k r)"
    by (rule stored_written)
  then show ?thesis
    using assms(2,3) by (simp add: invariant_holds_def key_invariant_obj_set)
qed

lemma writeDatabase_cases:
  "writeDatabase db s = Inl (FsError EOTHER)
   \<or> writeDatabase db s = Inr (s\<lparr>content := Some (JSON_stringify db)\<rparr>)"
  by (simp add: writeDatabase_def writeFile_def)

lemma post_shorten_invalid:
  assumes "\<not> (\<exists>u n. url = Some u \<and> nm = Some n \<and> u \<noteq> [] \<and> isValidUrl u \<and> name_pattern n)"
  shows "\<exists>resp. post_shorten isValidUrl req (body_field url) (body_field nm) s = Done resp s"
proof (cases url)
  case None
  then show ?thesis by (simp add: post_shorten_def body_field_simps)
next
  case u: (Some u)
  show ?thesis
  proof (cases nm)
    case None
    then show ?thesis using u by (simp add: post_shorten_def body_field_simps)
  next
    case (Some n)
    then have "u = [] \<or> \<not> isValidUrl u \<or> \<not> name_pattern n"
      using assms u by simp
    then show ?thesis
      using u Some by (auto simp: post_shorten_def body_field_simps valid_url_string)
  qed
qed

lemma post_shorten_keeps_invariant:
  assumes "invariant_holds s"
  shows "\<exists>resp s'. post_shorten isValidUrl req (body_field url) (body_field nm) s = Done resp s'
           \<and> invariant_holds s'"
proof (cases "\<exists>u n. url = Some u \<and> nm = Some n \<and> u \<noteq> [] \<and> isValidUrl u \<and> name_pattern n")
  case False
  then show ?thesis using post_shorten_invalid [OF False] assms by blast
next
  case True
  then obtain u n where v: "url = Some u" "nm = Some n" "u \<noteq> []" "isValidUrl u" "name_pattern n"
    by blast
  obtain db where db: "stored s = Some db" "key_invariant db"
    using assms by (auto simp: invariant_holds_def split: option.splits)
  let ?db = "obj_set db n (new_record req (VStr u) (VStr n) n)"
  have inv: "invariant_holds ((opened s)\<lparr>content := Some (JSON_stringify ?db)\<rparr>)"
    using db by (rule invariant_written)
      (simp_all add: new_record_def representable_def max_count_def)
  have o: "invariant_holds (opened s)" using assms by (rule invariant_opened)
  have n: "n \<noteq> []" using v(5) by (simp add: name_pattern_def)
  have "post_shorten isValidUrl req (Some (VStr u)) (Some (VStr n)) s =
     (if truthy (get db n) then Done name_taken (opened s)
      else case writeDatabase ?db (opened s) of
             Inl e \<Rightarrow> Done server_error (opened s)
           | Inr s2 \<Rightarrow>
               Done (Json 200 True (Some ''URL pendek berhasil dibuat!'') (Some ''success'')
                       (data_of (get ?db n))) s2)"
    using db(1) v(3,4,5) n by (intro post_shorten_loaded) (simp_all add: valid_url_string)
  then show ?thesis
    using writeDatabase_cases [of ?db "opened s"] v(1,2) inv o
    by (auto simp: body_field_simps)
qed

lemma get_name_keeps_invariant:
  assumes "invariant_holds s"
  shows "\<exists>resp s'. get_name req n s = Done resp s' \<and> invariant_holds s'"
proof -
  obtain db where db: "stored s = Some db" "key_invariant db"
    using assms by (auto simp: invariant_holds_def split: option.splits)
  have o: "invariant_holds (opened s)" using assms by (rule invariant_opened)
  show ?thesis
  proof (cases "get db n")
    case Undefined
    then show ?thesis using get_name_loaded [OF db(1), of req n] o by simp
  next
    case (Inherited p)
    then show ?thesis using get_name_loaded [OF db(1), of req n] o by simp
  next
    case (Own r)
    then have m: "map_of db n = Some r"
      by (auto simp: get_def split: option.splits if_splits)
    then have nm: "name r = VStr n" using db(2) by (rule key_invariant_lookup [rotated])
    let ?r = "r\<lparr>visits := plus_one (visits r), visit_history := visit_history r @ [visit_of req]\<rparr>"
    have "representable ?r"
      using db(1) m by (intro representable_visit representable_stored)
    then have inv: "invariant_holds ((opened s)\<lparr>content := Some (JSON_stringify (obj_set db n ?r))\<rparr>)"
      using db nm by (intro invariant_written) simp_all
    show ?thesis
      using get_name_loaded [OF db(1), of req n] Own
        writeDatabase_cases [of "obj_set db n ?r" "opened s"] inv o
      by (auto simp: visit_of_def)
  qed
qed

lemma get_stats_keeps_invariant:
  assumes "invariant_holds s"
  shows "\<exists>resp s'. get_stats n s = Done resp s' \<and> invariant_holds s'"
proof -
  obtain db where db: "stored s = Some db"
    using assms by (auto simp: invariant_holds_def split: option.splits)
  have o: "invariant_holds (opened s)" using assms by (rule invariant_opened)
  show ?thesis
    using get_stats_loaded [OF db, of n] o by auto
qed

subsection \<open>The example of section 8\<close>

text \<open>
  Creating \<open>ex1\<close> for \<open>https://example.com\<close> where there is no file yet returns the record with
  its short URL and no visits, which the statistics show; resolving \<open>ex1\<close> then redirects to
  the target, and the statistics show one visit and a history of length one.
\<close>

lemma example_scenario:
  fixes q1 q2 :: request
  defines "r0 \<equiv> new_record q1 (VStr ''https://example.com'') (VStr ''ex1'') ''ex1''"
  defines "s1 \<equiv> no_file\<lparr>content := Some (JSON_stringify [(''ex1'', r0)])\<rparr>"
  defines "r1 \<equiv> r0\<lparr>visits := 1, visit_history := [visit_of q2]\<rparr>"
  defines "s2 \<equiv> no_file\<lparr>content := Some (JSON_stringify [(''ex1'', r1)])\<rparr>"
  shows "post_shorten has_scheme q1 (Some (VStr ''https://example.com'')) (Some (VStr ''ex1''))
           no_file
           = Done (Json 200 True (Some ''URL pendek berhasil dibuat!'') (Some ''success'')
                    (Some (Link r0))) s1"
    and "web_url r0 = ''shortmyurl.us.kg/ex1''" and "visits r0 = 0" and "visit_history r0 = []"
    and "get_stats ''ex1'' s1 = Done (Json 200 True None None (Some (Link r0))) s1"
    and "get_name q2 ''ex1'' s1 = Done (Redirect 302 (VStr ''https://example.com'')) s2"
    and "get_stats ''ex1'' s2 = Done (Json 200 True None None (Some (Link r1))) s2"
    and "visits r1 = 1" and "length (visit_history r1) = 1"
proof -
  have o: "opened no_file = no_file\<lparr>content := Some ''{}''\<rparr>"
    using stored_no_file by (rule opened_missing) (simp add: no_file_def)
  have e: "obj_set ([] :: db) ''ex1'' r = [(''ex1'', r)]" for r
    by (simp add: obj_set_def)
  have h: "ToBoolean (VStr ''https://example.com'')" "ToBoolean (VStr ''ex1'')"
    "valid_url has_scheme (VStr ''https://example.com'')" "ToString (VStr ''ex1'') = Inr ''ex1''"
    "name_pattern ''ex1''" "''ex1'' \<notin> fst ` set ([] :: db)" "''ex1'' \<notin> set Object_prototype"
    "\<not> write_fails no_file"
    by (simp, simp, code_simp, simp, code_simp, simp, code_simp, simp add: no_file_def)
  have p: "plain (VStr ''https://example.com'')" "plain (VStr ''ex1'')" by simp_all
  note c = create_fresh_name [OF stored_no_file h, of q1]
  show "post_shorten has_scheme q1 (Some (VStr ''https://example.com'')) (Some (VStr ''ex1''))
           no_file
           = Done (Json 200 True (Some ''URL pendek berhasil dibuat!'') (Some ''success'')
                    (Some (Link r0))) s1"
    using c(1) by (simp add: o e r0_def s1_def)
  have st1: "stored s1 = Some [(''ex1'', r0)]"
    using c(2) [OF p] by (simp add: o e r0_def s1_def)
  show "get_stats ''ex1'' s1 = Done (Json 200 True None None (Some (Link r0))) s1"
    using c(3) [OF p] by (simp add: o e r0_def s1_def)
  show "web_url r0 = ''shortmyurl.us.kg/ex1''" "visits r0 = 0" "visit_history r0 = []"
    by (simp_all add: r0_def new_record_def baseUrl_def)
  have m: "map_of [(''ex1'', r0)] ''ex1'' = Some r0" by simp
  have w: "\<not> write_fails s1" by (simp add: s1_def no_file_def)
  have r: "r0\<lparr>visits := plus_one (visits r0), visit_history := visit_history r0 @ [visit_of q2]\<rparr>
      = r1"
    by (simp add: r1_def r0_def new_record_def plus_one_examples)
  have u: "obj_set [(''ex1'', r0)] ''ex1'' x = [(''ex1'', x)]" for x
    by (simp add: obj_set_def)
  have t: "web_target r0 = VStr ''https://example.com''"
    by (simp add: r0_def new_record_def)
  have s12: "s1\<lparr>content := Some (JSON_stringify [(''ex1'', r1)])\<rparr> = s2"
    by (simp add: s1_def s2_def)
  show g: "get_name q2 ''ex1'' s1 = Done (Redirect 302 (VStr ''https://example.com'')) s2"
    using get_name_own [OF st1 m w, of q2] by (simp add: r u t s12)
  have "stored s2 = Some [(''ex1'', r1)]"
    using stored_after_visit [OF st1 m, of "visit_history r0 @ [visit_of q2]"]
    by (simp add: r u s12)
  moreover have "opened s2 = s2"
    by (rule opened_existing) (simp add: s2_def)
  ultimately show "get_stats ''ex1'' s2 = Done (Json 200 True None None (Some (Link r1))) s2"
    by (simp add: get_stats_loaded get_def)
  show "visits r1 = 1" "length (visit_history r1) = 1"
    by (simp_all add: r1_def)
qed

section \<open>The claims\<close>

subsection \<open>Creating a mapping\<close>

text \<open>
  C2 at the input where the code departs from it. The name \<open>constructor\<close> matches the
  pattern and is not in the (empty) store, the URL is well formed, and yet the request is
  refused as name taken and no record is created: \<open>db[name]\<close> finds the inherited
  \<open>constructor\<close> property. For every name that is not inherited, \<open>create_fresh_name\<close> above
  shows the creation as C2 describes it, and \<open>example_scenario\<close> the example of section 8.
\<close>

theorem create_constructor_refused:
  "stored no_file = Some [] \<and> name_pattern ''constructor'' \<and> has_scheme ''https://example.com''
   \<and> post_shorten has_scheme sample_request (Some (VStr ''https://example.com''))
         (Some (VStr ''constructor'')) no_file
       = Done name_taken (no_file\<lparr>content := Some ''{}''\<rparr>)"
proof -
  have p: "name_pattern ''constructor''" by code_simp
  have u: "has_scheme ''https://example.com''" by code_simp
  have g: "truthy (get [] ''constructor'')" by code_simp
  have o: "opened no_file = no_file\<lparr>content := Some ''{}''\<rparr>"
    using stored_no_file by (rule opened_missing) (simp add: no_file_def)
  have "post_shorten has_scheme sample_request (Some (VStr ''https://example.com''))
          (Some (VStr ''constructor'')) no_file = Done name_taken (opened no_file)"
    using g
    by (subst post_shorten_loaded [where key = "''constructor''", OF stored_no_file])
       (simp_all add: valid_url_string u p)
  then show ?thesis using stored_no_file p u o by simp
qed



text \<open>
  C4. When the store holds a record under the name, a create request for that name (with a
  non-empty, well-formed URL) fails with the name-taken response, whose status is 400, and
  the file is left as it was. The statistics of the name afterwards are still the stored
  record, with its original target.
\<close>

theorem duplicate_name_conflict:
  assumes "stored s = Some db" "map_of db n = Some r" "u \<noteq> []" "isValidUrl u" "name_pattern n"
  shows "post_shorten isValidUrl req (Some (VStr u)) (Some (VStr n)) s = Done name_taken s
         \<and> status name_taken = 400
         \<and> get_stats n s = Done (Json 200 True None None (Some (Link r))) s"
proof -
  have g: "get db n = Own r" using assms(2) by (rule get_own)
  have "db \<noteq> []" using assms(2) by auto
  then have o: "opened s = s" using assms(1) by (rule opened_nonempty [rotated])
  have e: "n \<noteq> []" using assms(5) by (simp add: name_pattern_def)
  have "post_shorten isValidUrl req (Some (VStr u)) (Some (VStr n)) s = Done name_taken s"
    using g o
    by (subst post_shorten_loaded [where key = n, OF assms(1)])
       (simp_all add: valid_url_string assms e)
  moreover have "get_stats n s = Done (Json 200 True None None (Some (Link r))) s"
    using assms(1) g o by (simp add: get_stats_loaded)
  ultimately show ?thesis by (simp add: statuses)
qed

theorem duplicate_name_conflict_witness:
  "stored sample_fs = Some [(''a'', sample_record)]
   \<and> map_of [(''a'', sample_record)] ''a'' = Some sample_record
   \<and> post_shorten has_scheme sample_request (Some (VStr ''x:z'')) (Some (VStr ''a'')) sample_fs
       = Done name_taken sample_fs
   \<and> get_stats ''a'' sample_fs = Done (Json 200 True None None (Some (Link sample_record))) sample_fs
   \<and> web_target sample_record = VStr ''x:y''"
proof -
  have h2: "map_of [(''a'', sample_record)] ''a'' = Some sample_record" by simp
  have h3: "''x:z'' \<noteq> []" by simp
  have h4: "has_scheme ''x:z''" by code_simp
  have h5: "name_pattern ''a''" by code_simp
  have w: "web_target sample_record = VStr ''x:y''" by (simp add: sample_record_def)
  from duplicate_name_conflict
    [where isValidUrl = has_scheme and u = "''x:z''", OF stored_sample h2 h3 h4 h5]
  show ?thesis using stored_sample h2 w by simp
qed

text \<open>
  C5. A create request whose name does not match \<open>[a-zA-Z0-9-]+\<close>, with a non-empty and
  well-formed URL, fails with a validation error of status 400: the invalid-name response,
  or the missing-field response when the name is the empty string. Nothing is persisted:
  the file is not touched.
\<close>

theorem invalid_name_rejected:
  assumes "\<not> name_pattern n" "u \<noteq> []" "isValidUrl u"
  shows "post_shorten isValidUrl req (Some (VStr u)) (Some (VStr n)) s
           = Done (if n = [] then missing_field else invalid_name) s
         \<and> status missing_field = 400 \<and> status invalid_name = 400"
  using assms by (simp add: post_shorten_def statuses valid_url_string)

theorem invalid_name_rejected_witness:
  "\<not> name_pattern ''foo bar'' \<and> ''x:y'' \<noteq> [] \<and> has_scheme ''x:y''
   \<and> post_shorten has_scheme sample_request (Some (VStr ''x:y'')) (Some (VStr ''foo bar''))
         sample_fs
       = Done invalid_name sample_fs"
proof -
  have h1: "\<not> name_pattern ''foo bar''" by code_simp
  have h2: "''x:y'' \<noteq> []" by simp
  have h3: "has_scheme ''x:y''" by code_simp
  from invalid_name_rejected [where isValidUrl = has_scheme and u = "''x:y''", OF h1 h2 h3]
  show ?thesis using h1 h3 by simp
qed

lemma pattern_examples:
  "\<not> name_pattern ''foo bar''" "\<not> name_pattern ''foo/bar''" "\<not> name_pattern ''foo.bar''"
  "\<not> name_pattern []" "name_pattern ''ex1''" "name_pattern ''a-B-9''"
  by code_simp+

subsection \<open>Resolving a name\<close>




text \<open>
  C6, as the code has it. For a name that is not a key of the store and not a property of
  \<open>Object.prototype\<close>, resolving answers 404. A file that exists is left as it was; a file
  that does not exist is created by \<open>readDatabase\<close> with the text \<open>{}\<close>.
\<close>

theorem lookup_miss:
  assumes "stored s = Some db" "n \<notin> set (map fst db)" "n \<notin> set Object_prototype"
  shows "get_name req n s = Done not_found (opened s)
         \<and> status not_found = 404
         \<and> (content s \<noteq> None \<longrightarrow> opened s = s)
         \<and> (content s = None \<longrightarrow> opened s = s\<lparr>content := Some ''{}''\<rparr>)"
proof -
  have "get db n = Undefined"
    using assms(2,3) by (simp add: get_def key_absent)
  then have "get_name req n s = Done not_found (opened s)"
    using assms(1) by (simp add: get_name_loaded)
  then show ?thesis
    using opened_existing [of s] opened_missing [OF assms(1)] by (simp add: statuses)
qed

theorem lookup_miss_witness:
  "stored sample_fs = Some [(''a'', sample_record)]
   \<and> ''b'' \<notin> set (map fst [(''a'', sample_record)]) \<and> ''b'' \<notin> set Object_prototype
   \<and> content sample_fs \<noteq> None
   \<and> get_name sample_request ''b'' sample_fs = Done not_found sample_fs
   \<and> stored no_file = Some [] \<and> content no_file = None
   \<and> get_name sample_request ''b'' no_file
       = Done not_found (no_file\<lparr>content := Some ''{}''\<rparr>)"
proof -
  have h2: "''b'' \<notin> set (map fst [(''a'', sample_record)])" by simp
  have h2': "''b'' \<notin> set (map fst ([] :: db))" by simp
  have h3: "''b'' \<notin> set Object_prototype" by code_simp
  have c: "content sample_fs \<noteq> None" "content no_file = None"
    by (simp_all add: sample_fs_def no_file_def)
  from lookup_miss [OF stored_sample h2 h3, of sample_request]
    lookup_miss [OF stored_no_file h2' h3, of sample_request] c
  show ?thesis using stored_sample stored_no_file h2 h3 by simp
qed

text \<open>
  C6 as stated fails where the file does not exist: the name is not in the (empty) store,
  the answer is 404, and the file has been written.
\<close>

theorem lookup_miss_creates_file:
  "stored no_file = Some []
   \<and> get_name sample_request ''b'' no_file = Done not_found (no_file\<lparr>content := Some ''{}''\<rparr>)
   \<and> no_file\<lparr>content := Some ''{}''\<rparr> \<noteq> no_file"
proof -
  have "opened no_file = no_file\<lparr>content := Some ''{}''\<rparr>"
    using stored_no_file by (rule opened_missing) (simp add: no_file_def)
  moreover have "get ([] :: db) ''b'' = Undefined" by code_simp
  ultimately have "get_name sample_request ''b'' no_file
      = Done not_found (no_file\<lparr>content := Some ''{}''\<rparr>)"
    using stored_no_file by (simp add: get_name_loaded)
  moreover have "no_file\<lparr>content := Some ''{}''\<rparr> \<noteq> no_file"
    by (simp add: no_file_def)
  ultimately show ?thesis using stored_no_file by simp
qed

subsection \<open>Saving and loading\<close>

text \<open>
  C7. For every well-formed store, when the file can be written and read, saving the store
  and then loading yields the store again: \<open>writeDatabase\<close> writes the text of
  \<open>JSON.stringify\<close>, \<open>readDatabase\<close> parses that text to the JSON value of the store, and its
  typed view is the store that was saved. A well-formed store is a database object of
  JavaScript (distinct keys in the order of own properties) whose records hold counts that
  counting from \<open>0\<close> reaches (at most \<open>2 ^ 53\<close>) and, as name and target, strings or other
  plain values.
\<close>

theorem save_load_round_trip:
  assumes "well_formed db" "\<not> read_fails s" "\<not> write_fails s"
  shows "writeDatabase db s = Inr (s\<lparr>content := Some (JSON_stringify db)\<rparr>)
       \<and> readDatabase (s\<lparr>content := Some (JSON_stringify db)\<rparr>)
           = (Inr (db_json db), s\<lparr>content := Some (JSON_stringify db)\<rparr>)
       \<and> as_store (db_json db) = Some db
       \<and> stored (s\<lparr>content := Some (JSON_stringify db)\<rparr>) = Some db"
  using assms by (simp add: writeDatabase_ok readDatabase_written as_store_json stored_written)

theorem save_load_round_trip_witness:
  "well_formed [(''a'', sample_record)] \<and> \<not> read_fails no_file \<and> \<not> write_fails no_file
   \<and> writeDatabase [(''a'', sample_record)] no_file
       = Inr (no_file\<lparr>content := Some (JSON_stringify [(''a'', sample_record)])\<rparr>)
   \<and> readDatabase (no_file\<lparr>content := Some (JSON_stringify [(''a'', sample_record)])\<rparr>)
       = (Inr (db_json [(''a'', sample_record)]),
          no_file\<lparr>content := Some (JSON_stringify [(''a'', sample_record)])\<rparr>)
   \<and> as_store (db_json [(''a'', sample_record)]) = Some [(''a'', sample_record)]
   \<and> stored (no_file\<lparr>content := Some (JSON_stringify [(''a'', sample_record)])\<rparr>)
       = Some [(''a'', sample_record)]"
proof -
  have h1: "well_formed [(''a'', sample_record)]"
    by (rule well_formed_sample)
  have h2: "\<not> read_fails no_file" and h3: "\<not> write_fails no_file"
    by (simp_all add: no_file_def)
  from save_load_round_trip [OF h1 h2 h3] show ?thesis
    using h1 h2 h3 by simp
qed

text \<open>
  C8, as the code has it. \<open>readDatabase\<close> returns the parsed value of a text that is not
  empty and is JSON, and leaves the file as it is. It takes an empty text for \<open>{}\<close> and
  returns the empty store. When the file does not exist and can be written, it creates it
  with the text \<open>{}\<close> and returns the empty store. When the file cannot be read, or holds
  a non-empty text that is not JSON, it throws and leaves the file as it is; the two read
  handlers answer with the server error 500, and so does the create handler once its
  input has passed the first three rules.
\<close>

theorem load_behaviour:
  "(\<not> read_fails s \<and> content s = Some text \<and> text \<noteq> [] \<and> JSON_parse text = Some j
       \<longrightarrow> readDatabase s = (Inr j, s))
   \<and> (\<not> read_fails s \<and> content s = Some [] \<longrightarrow> readDatabase s = (Inr (JObj []), s))
   \<and> (\<not> read_fails s \<and> content s = None \<and> \<not> write_fails s
       \<longrightarrow> readDatabase s = (Inr (JObj []), s\<lparr>content := Some ''{}''\<rparr>))
   \<and> (corrupt s
       \<longrightarrow> (\<exists>e. readDatabase s = (Inl e, s))
         \<and> get_name req n s = Done server_error s
         \<and> get_stats n s = Done server_error s
         \<and> (u \<noteq> [] \<and> isValidUrl u \<and> name_pattern m
              \<longrightarrow> post_shorten isValidUrl req (Some (VStr u)) (Some (VStr m)) s
                    = Done server_error s))"
proof -
  have e: "JSON_parse ''{}'' = Some (JObj [])" by code_simp
  have a: "\<not> read_fails s \<and> content s = Some text \<and> text \<noteq> [] \<and> JSON_parse text = Some j
      \<longrightarrow> readDatabase s = (Inr j, s)"
    by (simp add: readDatabase_def readFile_def)
  have b: "\<not> read_fails s \<and> content s = Some [] \<longrightarrow> readDatabase s = (Inr (JObj []), s)"
    by (simp add: readDatabase_def readFile_def e)
  have c: "\<not> read_fails s \<and> content s = None \<and> \<not> write_fails s
      \<longrightarrow> readDatabase s = (Inr (JObj []), s\<lparr>content := Some ''{}''\<rparr>)"
    by (simp add: readDatabase_def readFile_def writeFile_def)
  have d: "(\<exists>e. readDatabase s = (Inl e, s))
         \<and> get_name req n s = Done server_error s
         \<and> get_stats n s = Done server_error s
         \<and> (u \<noteq> [] \<and> isValidUrl u \<and> name_pattern m
              \<longrightarrow> post_shorten isValidUrl req (Some (VStr u)) (Some (VStr m)) s
                    = Done server_error s)"
    if c: "corrupt s"
  proof -
    obtain e where r: "readDatabase s = (Inl e, s)"
      using readDatabase_corrupt [OF c] by blast
    have "name_pattern m \<longrightarrow> m \<noteq> []" by (simp add: name_pattern_def)
    then show ?thesis
      using r by (auto simp: get_name_def get_stats_def post_shorten_def valid_url_string)
  qed
  show ?thesis using a b c d by blast
qed

theorem load_behaviour_witness:
  "(\<not> read_fails sample_fs \<and> content sample_fs = Some sample_text \<and> sample_text \<noteq> []
      \<and> JSON_parse sample_text \<noteq> None
      \<and> readDatabase sample_fs = (Inr (the (JSON_parse sample_text)), sample_fs)
      \<and> as_store (the (JSON_parse sample_text)) = Some [(''a'', sample_record)])
   \<and> (\<not> read_fails empty_file \<and> content empty_file = Some []
      \<and> readDatabase empty_file = (Inr (JObj []), empty_file))
   \<and> (\<not> read_fails no_file \<and> content no_file = None \<and> \<not> write_fails no_file
      \<and> readDatabase no_file = (Inr (JObj []), no_file\<lparr>content := Some ''{}''\<rparr>))
   \<and> (corrupt broken_file
      \<and> readDatabase broken_file = (Inl SyntaxError, broken_file)
      \<and> get_name sample_request ''a'' broken_file = Done server_error broken_file
      \<and> get_stats ''a'' broken_file = Done server_error broken_file
      \<and> post_shorten has_scheme sample_request (Some (VStr ''x:y'')) (Some (VStr ''a''))
            broken_file
           = Done server_error broken_file)"
proof -
  have t: "sample_text \<noteq> []" by (simp add: sample_text_def)
  obtain j where j: "JSON_parse sample_text = Some j" "as_store j = Some [(''a'', sample_record)]"
    using readDatabase_stored [OF stored_sample] t
    by (auto simp: readDatabase_def readFile_def sample_fs_def split: option.splits)
  have f: "\<not> read_fails sample_fs" "content sample_fs = Some sample_text"
    "\<not> read_fails empty_file" "content empty_file = Some []"
    "\<not> read_fails no_file" "content no_file = None" "\<not> write_fails no_file"
    by (simp_all add: sample_fs_def empty_file_def no_file_def)
  have p: "JSON_parse ''{'' = None" by code_simp
  then have c: "corrupt broken_file" by (simp add: corrupt_def broken_file_def)
  have r: "readDatabase broken_file = (Inl SyntaxError, broken_file)"
    using p by (simp add: readDatabase_def readFile_def broken_file_def)
  have v: "''x:y'' \<noteq> [] \<and> has_scheme ''x:y'' \<and> name_pattern ''a''" by code_simp
  note w = load_behaviour [where isValidUrl = has_scheme and u = "''x:y''" and m = "''a''"
      and req = sample_request and n = "''a''"]
  show ?thesis
    using w [of sample_fs sample_text j] w [of empty_file] w [of no_file] w [of broken_file]
      j t f c r v
    by simp
qed

text \<open>
  C8 as stated fails on the empty text: \<open>JSON.parse\<close> rejects it, but \<open>data || '{}'\<close> replaces
  it first, so \<open>readDatabase\<close> returns the empty store and a lookup answers 404, not 500.
\<close>

theorem empty_file_is_empty_store:
  "content empty_file = Some [] \<and> \<not> read_fails empty_file \<and> JSON_parse [] = None
   \<and> readDatabase empty_file = (Inr (JObj []), empty_file)
   \<and> get_stats ''a'' empty_file = Done not_found empty_file"
proof -
  have p: "JSON_parse [] = None" by code_simp
  have e: "JSON_parse ''{}'' = Some (JObj [])" by code_simp
  have r: "readDatabase empty_file = (Inr (JObj []), empty_file)"
    by (simp add: readDatabase_def readFile_def empty_file_def e)
  have g: "get [] ''a'' = Undefined" by code_simp
  have "get_stats ''a'' empty_file = Done not_found empty_file"
    using r g by (simp add: get_stats_def as_store_empty)
  then show ?thesis using p r by (simp add: empty_file_def)
qed

subsection \<open>The store invariant\<close>

text \<open>
  C9 at an input where the code departs from it. The body \<open>{url: "https://example.com",
  name: ["ab"]}\<close> passes the four rules, since the pattern is tested on the string \<open>ab\<close> that
  the array converts to, and \<open>db[name]\<close> creates the key \<open>ab\<close>; the record stored under that
  key has the array as its \<open>name\<close>. The store had the invariant before the request and does
  not have it afterwards. The comment at line 73 asks for a name of letters, digits and
  dashes only, which this name is not. Resolving and the statistics keep the invariant,
  and creating does when the name is a string (\<open>post_shorten_keeps_invariant\<close>,
  \<open>get_name_keeps_invariant\<close> and \<open>get_stats_keeps_invariant\<close> above).
\<close>

theorem array_name_breaks_invariant:
  "invariant_holds no_file
   \<and> post_shorten has_scheme sample_request (Some (VStr ''https://example.com''))
         (Some (VArr [VStr ''ab''])) no_file
       = Done (Json 200 True (Some ''URL pendek berhasil dibuat!'') (Some ''success'')
                (Some (Link array_record)))
           (no_file\<lparr>content := Some (JSON_stringify [(''ab'', array_record)])\<rparr>)
   \<and> stored (no_file\<lparr>content := Some (JSON_stringify [(''ab'', array_record)])\<rparr>)
       = Some [(''ab'', array_record)]
   \<and> name array_record = VArr [VStr ''ab'']
   \<and> \<not> invariant_holds (no_file\<lparr>content := Some (JSON_stringify [(''ab'', array_record)])\<rparr>)"
proof -
  have i: "invariant_holds no_file"
    by (simp add: invariant_holds_def stored_no_file key_invariant_def)
  have o: "opened no_file = no_file\<lparr>content := Some ''{}''\<rparr>"
    using stored_no_file by (rule opened_missing) (simp add: no_file_def)
  have e: "obj_set ([] :: db) ''ab'' r = [(''ab'', r)]" for r
    by (simp add: obj_set_def)
  have h: "ToBoolean (VStr ''https://example.com'')" "ToBoolean (VArr [VStr ''ab''])"
    "valid_url has_scheme (VStr ''https://example.com'')"
    "ToString (VArr [VStr ''ab'']) = Inr ''ab''"
    "name_pattern ''ab''" "''ab'' \<notin> fst ` set ([] :: db)" "''ab'' \<notin> set Object_prototype"
    "\<not> write_fails no_file"
    by (simp, simp, code_simp, simp, code_simp, simp, code_simp, simp add: no_file_def)
  have p: "plain (VStr ''https://example.com'')" "plain (VArr [VStr ''ab''])" by simp_all
  note c = create_fresh_name [OF stored_no_file h, of sample_request]
  have 1: "post_shorten has_scheme sample_request (Some (VStr ''https://example.com''))
         (Some (VArr [VStr ''ab''])) no_file
       = Done (Json 200 True (Some ''URL pendek berhasil dibuat!'') (Some ''success'')
                (Some (Link array_record)))
           (no_file\<lparr>content := Some (JSON_stringify [(''ab'', array_record)])\<rparr>)"
    using c(1) by (simp add: o e array_record_def)
  have 2: "stored (no_file\<lparr>content := Some (JSON_stringify [(''ab'', array_record)])\<rparr>)
       = Some [(''ab'', array_record)]"
    using c(2) [OF p] by (simp add: o e array_record_def)
  have 3: "name array_record = VArr [VStr ''ab'']"
    by (simp add: array_record_def new_record_def)
  show ?thesis
    using i 1 2 3 by (simp add: invariant_holds_def key_invariant_def)
qed

text \<open>The same with the number \<open>123\<close> as name: the key is \<open>123\<close>, the name the number.\<close>

lemma show_nat_123: "show_nat 123 = ''123''"
  by code_simp

lemma number_name_breaks_invariant:
  fixes req :: request
  defines "r \<equiv> new_record req (VStr ''https://example.com'') (VNum ''123'') ''123''"
  defines "s' \<equiv> no_file\<lparr>content := Some (JSON_stringify [(''123'', r)])\<rparr>"
  shows "post_shorten has_scheme req (Some (VStr ''https://example.com'')) (Some (VNum ''123''))
           no_file
         = Done (Json 200 True (Some ''URL pendek berhasil dibuat!'') (Some ''success'')
                  (Some (Link r))) s'"
    and "stored s' = Some [(''123'', r)]" and "name r = VNum ''123''"
    and "\<not> invariant_holds s'"
proof -
  have o: "opened no_file = no_file\<lparr>content := Some ''{}''\<rparr>"
    using stored_no_file by (rule opened_missing) (simp add: no_file_def)
  have e: "obj_set ([] :: db) ''123'' x = [(''123'', x)]" for x
    by (simp add: obj_set_def)
  have h: "ToBoolean (VStr ''https://example.com'')" "ToBoolean (VNum ''123'')"
    "valid_url has_scheme (VStr ''https://example.com'')"
    "ToString (VNum ''123'') = Inr ''123''"
    "name_pattern ''123''" "''123'' \<notin> fst ` set ([] :: db)" "''123'' \<notin> set Object_prototype"
    "\<not> write_fails no_file"
    by (simp, simp, code_simp, simp, code_simp, simp, code_simp, simp add: no_file_def)
  have "plain_number ''123'' = Some 123"
    using plain_number_show_nat [of 123] by (simp add: show_nat_123 max_count_def)
  then have p: "plain (VStr ''https://example.com'')" "plain (VNum ''123'')" by simp_all
  note c = create_fresh_name [OF stored_no_file h, of req]
  show 1: "post_shorten has_scheme req (Some (VStr ''https://example.com'')) (Some (VNum ''123''))
           no_file
         = Done (Json 200 True (Some ''URL pendek berhasil dibuat!'') (Some ''success'')
                  (Some (Link r))) s'"
    using c(1) by (simp add: o e r_def s'_def)
  show 2: "stored s' = Some [(''123'', r)]"
    using c(2) [OF p] by (simp add: o e r_def s'_def)
  show 3: "name r = VNum ''123''" by (simp add: r_def new_record_def)
  show "\<not> invariant_holds s'"
    using 2 3 by (simp add: invariant_holds_def key_invariant_def)
qed

subsection \<open>Names inherited from \<open>Object.prototype\<close>\<close>

text \<open>
  C10. Presence is decided by the truthiness of \<open>db[name]\<close>. For a name that is a property
  of \<open>Object.prototype\<close> and not a key of the store, a create request with that name (if it
  matches the pattern, as \<open>constructor\<close>, \<open>toString\<close>, \<open>hasOwnProperty\<close> and \<open>valueOf\<close> do)
  is answered with the name-taken response, and resolving the name is answered with the
  server error 500, not with 404.
\<close>

theorem inherited_name:
  assumes "stored s = Some db" "n \<notin> set (map fst db)" "n \<in> set Object_prototype"
  shows "(u \<noteq> [] \<and> isValidUrl u \<and> name_pattern n \<longrightarrow>
            post_shorten isValidUrl req (Some (VStr u)) (Some (VStr n)) s
              = Done name_taken (opened s))
         \<and> get_name req n s = Done server_error (opened s)
         \<and> status server_error = 500 \<and> status name_taken = 400"
proof -
  have g: "get db n = Inherited n"
    using assms(2,3) by (simp add: get_def key_absent)
  have "get_name req n s = Done server_error (opened s)"
    using assms(1) g by (simp add: get_name_loaded)
  moreover have "post_shorten isValidUrl req (Some (VStr u)) (Some (VStr n)) s
      = Done name_taken (opened s)"
    if "u \<noteq> []" "isValidUrl u" "name_pattern n"
  proof -
    have "n \<noteq> []" using that(3) by (simp add: name_pattern_def)
    then show ?thesis
      using g
      by (subst post_shorten_loaded [where key = n, OF assms(1)])
         (simp_all add: valid_url_string that)
  qed
  ultimately show ?thesis by (simp add: statuses)
qed

lemma inherited_examples:
  "list_all (\<lambda>n. n \<in> set Object_prototype \<and> name_pattern n)
     [''constructor'', ''toString'', ''hasOwnProperty'', ''valueOf'']"
  by code_simp

theorem inherited_name_witness:
  "stored no_file = Some [] \<and> ''constructor'' \<notin> set (map fst ([] :: db))
   \<and> ''constructor'' \<in> set Object_prototype \<and> name_pattern ''constructor''
   \<and> post_shorten has_scheme sample_request (Some (VStr ''x:y'')) (Some (VStr ''constructor''))
         no_file
        = Done name_taken (opened no_file)
   \<and> get_name sample_request ''constructor'' no_file = Done server_error (opened no_file)
   \<and> status server_error = 500"
proof -
  have h2: "''constructor'' \<notin> set (map fst ([] :: db))" by simp
  have h3: "''constructor'' \<in> set Object_prototype" by code_simp
  have h4: "''x:y'' \<noteq> []" by simp
  have h5: "has_scheme ''x:y''" by code_simp
  have h6: "name_pattern ''constructor''" by code_simp
  from inherited_name
    [where isValidUrl = has_scheme and u = "''x:y''", OF stored_no_file h2 h3]
  show ?thesis using stored_no_file h2 h3 h4 h5 h6 by simp
qed

end
